theory Spec2Isabelle
  imports Main "HOL-Library.Word"
begin

section \<open>Finite model builder: data model\<close>

text \<open>
  A shallow embedding of \<^verbatim>\<open>src/FMB/FiniteModelBuilder.cpp\<close>. C++ \<^verbatim>\<open>unsigned\<close> values are
  32-bit words, so every addition, subtraction and multiplication wraps as in the source.
  A \<^verbatim>\<open>DArray\<close> or \<^verbatim>\<open>Stack\<close> is a list read with \<open>!\<close>; sort, symbol and variable numbers
  that only index arrays are natural numbers.
\<close>

type_synonym u32 = "32 word"

datatype SATLiteral = SATLiteral (var: u32) (polarity: bool)

type_synonym SATClause = "SATLiteral list"

text \<open>
  A literal of a flattened clause: \<open>x = y\<close> on two variables, \<open>f(x\<^sub>1,\<dots>,x\<^sub>n) = y\<close>, or
  \<open>p(x\<^sub>1,\<dots>,x\<^sub>n)\<close>, each with its polarity (\<^verbatim>\<open>isPositive()\<close>). Variables are numbered.
\<close>

datatype Literal =
    TwoVarEquality bool nat nat
  | FunctionEquality bool nat "nat list" nat
  | PredicateLiteral bool nat "nat list"

text \<open>
  A clause of \<^verbatim>\<open>_clauses\<close> with its entry of \<^verbatim>\<open>_clauseVariableSorts\<close> (absent for a clause
  made of variable equalities only).
\<close>

record Clause =
  varCnt :: nat
  literals :: "Literal list"
  clauseVariableSorts :: "nat list option"

record SortedSignature =
  parents :: "nat list"
  sortBounds :: "u32 list"
  monotonicSorts :: "bool list"
  functionSignatures :: "nat list list"
  predicateSignatures :: "nat list list"

text \<open>
  The no-goods and generators of the enumerator \<^verbatim>\<open>HackyDSAE\<close>: a vector with one entry per
  distinct sort, a tag and a size. \<^verbatim>\<open>_constraints_generators\<close> is a heap ordered by weight,
  held here as the list of its elements.
\<close>

datatype ConstraintSign = EQ | GEQ | LEQ | STAR

type_synonym Constraint_Generator_Vals = "(ConstraintSign \<times> u32) list"

record Constraint_Generator =
  vals :: Constraint_Generator_Vals
  weight :: u32

record HackyDSAE =
  constraints_generators :: "Constraint_Generator list"
  old_generators :: "Constraint_Generator list"
  maxWeightSoFar :: u32
  keepOldGenerators :: bool

text \<open>
  The fields of \<^verbatim>\<open>FiniteModelBuilder\<close> that the encoder and the driver read and write.
  \<open>units\<close> stands for \<^verbatim>\<open>_prb.units()\<close>; a ground clause is a list of propositional symbols
  with polarities; \<open>alternator\<close> is the \<^verbatim>\<open>static\<close> counter of \<^verbatim>\<open>runImpl\<close>. \<open>solvers\<close> counts
  the \<^verbatim>\<open>MinisatInterfacingNewSimp\<close> instances allocated so far and \<open>solverCalls\<close> the calls of
  \<^verbatim>\<open>solveUnderAssumptions\<close>. \<open>VAR_MAX\<close> is the constant \<^verbatim>\<open>MinisatInterfacingNewSimp::VAR_MAX\<close>,
  whose declaration is not part of the sources.
\<close>

record FMB =
  isAppropriate :: bool
  units :: "Clause list"
  sortedSignature :: SortedSignature
  del_f :: "bool list"
  del_p :: "bool list"
  groundClauses :: "(nat \<times> bool) list list"
  clauses :: "Clause list"
  xmass :: bool
  startModelSize :: u32
  sizeWeightRatio :: u32
  VAR_MAX :: u32
  distinctSortMins :: "u32 list"
  distinctSortMaxs :: "u32 list"
  distinct_sort_constraints :: "(nat \<times> nat) list"
  strict_distinct_sort_constraints :: "(nat \<times> nat) list"
  sortModelSizes :: "u32 list"
  distinctSortSizes :: "u32 list"
  f_offsets :: "u32 list"
  p_offsets :: "u32 list"
  marker_offsets :: "u32 list"
  totalityMarker_offset :: u32
  instancesMarker_offset :: u32
  curMaxVar :: u32
  solvers :: nat
  solverCalls :: nat
  clausesToBeAdded :: "SATClause list"
  alternator :: u32
  dsaEnumerator :: HackyDSAE

section \<open>SAT variable numbering: \<^verbatim>\<open>getSATLiteral\<close>\<close>

text \<open>
  The loop of \<^verbatim>\<open>getSATLiteral\<close> over the slots of the grounding:
  \<^verbatim>\<open>var += mult*(grounding[i]-1); mult *= _sortModelSizes[signature[i]]\<close>.
  The source asserts that the grounding has as many slots as the signature.
\<close>

fun varLoop :: "u32 \<Rightarrow> u32 \<Rightarrow> u32 list \<Rightarrow> u32 list \<Rightarrow> u32" where
  "varLoop v mult (g # gs) (s # ss) = varLoop (v + mult * (g - 1)) (mult * s) gs ss"
| "varLoop v mult _ _ = v"

definition slotSizes :: "FMB \<Rightarrow> nat list \<Rightarrow> u32 list" where
  "slotSizes st sig = map (\<lambda>srt. sortModelSizes st ! srt) sig"

definition symbolSignature :: "FMB \<Rightarrow> bool \<Rightarrow> nat \<Rightarrow> nat list" where
  "symbolSignature st isFunction f =
     (if isFunction then functionSignatures (sortedSignature st) ! f
      else predicateSignatures (sortedSignature st) ! f)"

definition symbolOffset :: "FMB \<Rightarrow> bool \<Rightarrow> nat \<Rightarrow> u32" where
  "symbolOffset st isFunction f = (if isFunction then f_offsets st ! f else p_offsets st ! f)"

definition getSATLiteral :: "FMB \<Rightarrow> nat \<Rightarrow> u32 list \<Rightarrow> bool \<Rightarrow> bool \<Rightarrow> SATLiteral" where
  "getSATLiteral st f grounding pol isFunction =
     SATLiteral
       (varLoop (symbolOffset st isFunction f) 1 grounding
          (slotSizes st (symbolSignature st isFunction f)))
       pol"

section \<open>The grounding odometer\<close>

text \<open>
  One pass of the loop \<^verbatim>\<open>for(var=vars-1; var+1!=0; var--)\<close> shared by all emitters: from
  the right-most variable, a variable at its maximum is set back to 1 and the pass moves
  left; the first variable below its maximum is incremented and the pass stops with a new
  grounding. \<open>None\<close> is the loop running off the left end.
\<close>

fun odometer :: "u32 list \<Rightarrow> u32 list \<Rightarrow> u32 list option" where
  "odometer (g # gs) (m # ms) =
     (case odometer gs ms of
        Some gs' \<Rightarrow> Some (g # gs')
      | None \<Rightarrow> if g = m then None else Some ((g + 1) # map (\<lambda>_. 1) gs))"
| "odometer _ _ = None"

definition odo_rank :: "u32 list \<Rightarrow> u32 list \<Rightarrow> nat list" where
  "odo_rank ms g = map (\<lambda>(x, m). unat (m - x)) (zip g ms)"

text \<open>
  The groundings visited by the \<^verbatim>\<open>goto\<close> loop from a given array content on, in order.
\<close>

function groundingsFrom :: "u32 list \<Rightarrow> u32 list \<Rightarrow> u32 list list" where
  "groundingsFrom ms g =
     (case odometer g ms of
        None \<Rightarrow> []
      | Some g' \<Rightarrow> g' # groundingsFrom ms g')"
  by pat_completeness auto
termination
proof (relation "inv_image (lex less_than) (\<lambda>(ms, g). odo_rank ms g)")
  show "wf (inv_image (lex less_than) (\<lambda>(ms, g). odo_rank ms g))"
    by (intro wf_inv_image wf_lex wf_less_than)
next
  fix ms g g'
  assume "odometer g ms = Some g'"
  then have "(odo_rank ms g', odo_rank ms g) \<in> lex less_than"
  proof (induction g ms arbitrary: g' rule: odometer.induct)
    case (1 x gs m ms)
    show ?case
    proof (cases "odometer gs ms")
      case None
      with 1(2) have ne: "x \<noteq> m" and g': "g' = (x + 1) # map (\<lambda>_. 1) gs"
        by (auto split: if_splits)
      have nz: "m - x \<noteq> 0" using ne by simp
      have e1: "m - (x + 1) = (m - x) - 1" by simp
      have e2: "unat ((m - x) - 1) = unat (m - x) - 1" using nz by (rule unat_minus_one)
      have e3: "0 < unat (m - x)" using nz unat_gt_0 by blast
      have "unat (m - (x + 1)) < unat (m - x)"
        unfolding e1 e2 using e3 by arith
      then show ?thesis
        by (simp add: g' odo_rank_def lex_conv) (rule exI[of _ "[]"], auto)
    next
      case (Some gs')
      with 1(2) have g': "g' = x # gs'" by simp
      from 1(1)[OF Some] have "(odo_rank ms gs', odo_rank ms gs) \<in> lex less_than" .
      then show ?thesis
        by (simp add: g' odo_rank_def)
    qed
  qed simp_all
  then show "((ms, g'), (ms, g)) \<in> inv_image (lex less_than) (\<lambda>(ms, g). odo_rank ms g)"
    by simp
qed

text \<open>
  The arrays are initialised with \<^verbatim>\<open>grounding[i]=1\<close> for all \<open>i\<close> and then
  \<^verbatim>\<open>grounding[vars-1]=0\<close>, so that the first pass yields the all-ones grounding.
\<close>

definition initialGrounding :: "nat \<Rightarrow> u32 list" where
  "initialGrounding vars = (replicate vars 1)[vars - 1 := 0]"

text \<open>The bound used for every grounded position: \<^verbatim>\<open>std::min\<close> of the size and the bound of its sort.\<close>

definition maxSizeOfSort :: "FMB \<Rightarrow> nat \<Rightarrow> u32" where
  "maxSizeOfSort st srt = min (sortBounds (sortedSignature st) ! srt) (sortModelSizes st ! srt)"

section \<open>Clause emitters\<close>

subsection \<open>Instances of a clause: \<^verbatim>\<open>addNewInstances\<close>\<close>

text \<open>
  \<^verbatim>\<open>varDistinctSortsMaxes\<close> is an \<^verbatim>\<open>ArrayMap\<close> read with \<^verbatim>\<open>get(i,0)\<close>: a function that is 0
  where nothing was set. In CONTOUR mode (\<^verbatim>\<open>_xmass\<close>) it is recomputed for every grounding
  and holds, for every non-monotonic distinct sort, the largest value a variable of the
  sort is grounded with; otherwise it is computed once per clause and flags the
  non-monotonic distinct sorts of the clause's variables with 1.
\<close>

definition contourSortMaxes :: "FMB \<Rightarrow> nat \<Rightarrow> nat list \<Rightarrow> u32 list \<Rightarrow> nat \<Rightarrow> u32" where
  "contourSortMaxes st vars varSorts grounding =
     fold (\<lambda>v m.
             let srt = varSorts ! v;
                 dsr = parents (sortedSignature st) ! srt
             in if monotonicSorts (sortedSignature st) ! dsr then m
                else m(dsr := max (grounding ! v) (m dsr)))
          [0..<vars] (\<lambda>_. 0)"

definition sbmeamSortFlags :: "FMB \<Rightarrow> nat \<Rightarrow> nat list \<Rightarrow> nat \<Rightarrow> u32" where
  "sbmeamSortFlags st vars varSorts =
     fold (\<lambda>v m.
             let srt = varSorts ! v;
                 dsort = parents (sortedSignature st) ! srt
             in if \<not> monotonicSorts (sortedSignature st) ! dsort then m(dsort := 1) else m)
          [0..<vars] (\<lambda>_. 0)"

definition instanceMarkers :: "FMB \<Rightarrow> nat \<Rightarrow> nat list \<Rightarrow> u32 list \<Rightarrow> SATLiteral list" where
  "instanceMarkers st vars varSorts grounding =
     (if xmass st
      then concat (map (\<lambda>i. let val = contourSortMaxes st vars varSorts grounding i
                             in if 1 < val then [SATLiteral (marker_offsets st ! i + val - 2) False]
                                else [])
                       [0..<length (distinctSortSizes st)])
      else concat (map (\<lambda>i. if sbmeamSortFlags st vars varSorts i \<noteq> 0
                             then [SATLiteral (instancesMarker_offset st + of_nat i) False]
                             else [])
                       [0..<length (distinctSortSizes st)]))"

text \<open>
  The loop over the literals of the clause under one grounding. \<open>None\<close> is
  \<^verbatim>\<open>goto instanceLabel\<close> (the instance is abandoned, nothing is emitted for it); skipping a
  literal is \<^verbatim>\<open>continue\<close>. The two tests on a two-variable equality are written as in the
  source; control never passes both, and what the source would do then (read a variable
  as a function term) has no defined behaviour.
\<close>

fun groundLiterals :: "FMB \<Rightarrow> u32 list \<Rightarrow> Literal list \<Rightarrow> SATLiteral list option" where
  "groundLiterals st grounding [] = Some []"
| "groundLiterals st grounding (TwoVarEquality isPositive x y # rest) =
     (let equal = (grounding ! x = grounding ! y) in
      if (isPositive \<and> equal) \<or> (\<not> isPositive \<and> \<not> equal) then None
      else if (isPositive \<and> \<not> equal) \<or> (\<not> isPositive \<and> equal)
           then groundLiterals st grounding rest
      else undefined)"
| "groundLiterals st grounding (FunctionEquality pol functor args y # rest) =
     (let use = map (\<lambda>x. grounding ! x) args @ [grounding ! y]
      in map_option (Cons (getSATLiteral st functor use pol True))
           (groundLiterals st grounding rest))"
| "groundLiterals st grounding (PredicateLiteral pol functor args # rest) =
     (let use = map (\<lambda>x. grounding ! x) args
      in map_option (Cons (getSATLiteral st functor use pol False))
           (groundLiterals st grounding rest))"

text \<open>The SAT clause handed to \<^verbatim>\<open>addSATClause\<close> for one grounding, if any: markers first.\<close>

definition groundInstance :: "FMB \<Rightarrow> Clause \<Rightarrow> nat list \<Rightarrow> u32 list \<Rightarrow> SATClause option" where
  "groundInstance st c varSorts grounding =
     map_option (\<lambda>lits. instanceMarkers st (varCnt c) varSorts grounding @ lits)
       (groundLiterals st grounding (literals c))"

definition clauseInstances :: "FMB \<Rightarrow> Clause \<Rightarrow> SATClause list" where
  "clauseInstances st c =
     (case clauseVariableSorts c of
        None \<Rightarrow> []
      | Some varSorts \<Rightarrow>
          let vars = varCnt c;
              maxVarSize = map (\<lambda>v. maxSizeOfSort st (varSorts ! v)) [0..<vars]
          in List.map_filter (groundInstance st c varSorts)
               (groundingsFrom maxVarSize (initialGrounding vars)))"

definition addNewInstances :: "FMB \<Rightarrow> SATClause list" where
  "addNewInstances st = concat (map (clauseInstances st) (clauses st))"

subsection \<open>Functional definitions: \<^verbatim>\<open>addNewFunctionalDefs\<close>\<close>

text \<open>
  The number of functions is the length of \<^verbatim>\<open>functionSignatures\<close>, and the arity of a
  function is the length of its signature minus one (the source asserts
  \<^verbatim>\<open>f_signature.size() == arity+1\<close>). The grounding is \<open>[y, z, x\<^sub>1, \<dots>, x\<^sub>n]\<close>.
\<close>

definition functionCount :: "FMB \<Rightarrow> nat" where
  "functionCount st = length (functionSignatures (sortedSignature st))"

definition functionArity :: "FMB \<Rightarrow> nat \<Rightarrow> nat" where
  "functionArity st f = length (functionSignatures (sortedSignature st) ! f) - 1"

definition functionalDefClause :: "FMB \<Rightarrow> nat \<Rightarrow> u32 list \<Rightarrow> SATClause" where
  "functionalDefClause st f grounding =
     (let arity = functionArity st f;
          use = map (\<lambda>k. grounding ! (k + 2)) [0..<arity]
      in [getSATLiteral st f (use @ [grounding ! 0]) False True,
          getSATLiteral st f (use @ [grounding ! 1]) False True])"

definition functionalDefMaxVarSize :: "FMB \<Rightarrow> nat \<Rightarrow> u32 list" where
  "functionalDefMaxVarSize st f =
     (let f_signature = functionSignatures (sortedSignature st) ! f;
          arity = functionArity st f;
          returnSrt = f_signature ! arity
      in maxSizeOfSort st returnSrt # maxSizeOfSort st returnSrt #
         map (\<lambda>v. maxSizeOfSort st (f_signature ! (v - 2))) [2..<arity + 2])"

definition functionalDefs :: "FMB \<Rightarrow> nat \<Rightarrow> SATClause list" where
  "functionalDefs st f =
     map (functionalDefClause st f)
       (filter (\<lambda>grounding. \<not> grounding ! 0 \<ge> grounding ! 1)
          (groundingsFrom (functionalDefMaxVarSize st f)
             (initialGrounding (functionArity st f + 2))))"

definition addNewFunctionalDefs :: "FMB \<Rightarrow> SATClause list" where
  "addNewFunctionalDefs st =
     concat (map (\<lambda>f. if del_f st ! f then [] else functionalDefs st f) [0..<functionCount st])"

subsection \<open>Totality: \<^verbatim>\<open>addNewTotalityDefs\<close>\<close>

text \<open>
  A loop \<^verbatim>\<open>for(unsigned i=a; i<=b; i++)\<close> visits \<open>a, \<dots>, b\<close>; when \<open>b\<close> is the largest
  \<^verbatim>\<open>unsigned\<close> its test never fails and the loop does not end (\<open>None\<close>).
\<close>

definition forUpTo :: "u32 \<Rightarrow> u32 \<Rightarrow> u32 list option" where
  "forUpTo a b = (if b = - 1 then None else Some (map of_nat [unat a..<Suc (unat b)]))"

text \<open>
  The clause for the argument grounding \<open>grounding\<close> and the candidate cardinality \<open>i\<close>
  of the result sort: \<open>f(grounding) = 1 \<or> \<dots> \<or> f(grounding) = i\<close> and the marker. The source
  has this body twice, once for constants (empty argument grounding) and once under the
  odometer.
\<close>

definition totalityMarkerIdx :: "FMB \<Rightarrow> nat \<Rightarrow> u32 \<Rightarrow> u32 \<Rightarrow> u32" where
  "totalityMarkerIdx st dsrt maxSize i =
     (if i = maxSize then distinctSortSizes st ! dsrt - 1 else i - 1)"

definition totalityClause :: "FMB \<Rightarrow> nat \<Rightarrow> u32 list \<Rightarrow> nat \<Rightarrow> u32 \<Rightarrow> u32 \<Rightarrow> SATClause" where
  "totalityClause st f grounding dsrt maxSize i =
     map (\<lambda>constant. getSATLiteral st f (grounding @ [of_nat constant]) True True)
         [1..<Suc (unat i)]
     @ [if xmass st
        then SATLiteral (marker_offsets st ! dsrt + totalityMarkerIdx st dsrt maxSize i) True
        else SATLiteral (totalityMarker_offset st + of_nat dsrt) False]"

definition totalityVersions :: "FMB \<Rightarrow> nat \<Rightarrow> u32 list \<Rightarrow> SATClause list option" where
  "totalityVersions st f grounding =
     (let f_signature = functionSignatures (sortedSignature st) ! f;
          retSrt = f_signature ! functionArity st f;
          dRetSrt = parents (sortedSignature st) ! retSrt;
          maxRtSrtSize = maxSizeOfSort st retSrt;
          first = (if \<not> xmass st \<or> monotonicSorts (sortedSignature st) ! dRetSrt
                   then maxRtSrtSize else 1)
      in map_option (map (totalityClause st f grounding dRetSrt maxRtSrtSize))
           (forUpTo first maxRtSrtSize))"

definition totalityMaxVarSize :: "FMB \<Rightarrow> nat \<Rightarrow> u32 list" where
  "totalityMaxVarSize st f =
     map (\<lambda>v. maxSizeOfSort st (functionSignatures (sortedSignature st) ! f ! v))
         [0..<functionArity st f]"

definition totalityDefs :: "FMB \<Rightarrow> nat \<Rightarrow> SATClause list option" where
  "totalityDefs st f =
     (if functionArity st f = 0 then totalityVersions st f []
      else map_option concat
             (those (map (totalityVersions st f)
                (groundingsFrom (totalityMaxVarSize st f)
                   (initialGrounding (functionArity st f))))))"

text \<open>The staircase clauses \<open>\<not> marker(j+1) \<or> marker(j)\<close> of CONTOUR mode.\<close>

definition staircase :: "FMB \<Rightarrow> SATClause list" where
  "staircase st =
     (if xmass st
      then concat (map (\<lambda>i. map (\<lambda>j. [SATLiteral (marker_offsets st ! i + of_nat j) True,
                                       SATLiteral (marker_offsets st ! i + of_nat j + 1) False])
                                  [0..<unat (distinctSortSizes st ! i - 1)])
                       [0..<length (distinctSortSizes st)])
      else [])"

definition addNewTotalityDefs :: "FMB \<Rightarrow> SATClause list option" where
  "addNewTotalityDefs st =
     map_option (\<lambda>cs. staircase st @ concat cs)
       (those (map (\<lambda>f. if del_f st ! f then Some [] else totalityDefs st f)
                   [0..<functionCount st]))"

subsection \<open>Assumptions and satisfaction\<close>

text \<open>The assumption literals \<^verbatim>\<open>runImpl\<close> passes to \<^verbatim>\<open>solveUnderAssumptions\<close>.\<close>

definition assumptions :: "FMB \<Rightarrow> SATLiteral list" where
  "assumptions st =
     (if xmass st
      then map (\<lambda>i. SATLiteral (marker_offsets st ! i + distinctSortSizes st ! i - 1) False)
               [0..<length (distinctSortSizes st)]
      else map (\<lambda>i. SATLiteral (totalityMarker_offset st + of_nat i) True)
               [0..<length (distinctSortSizes st)]
           @ map (\<lambda>i. SATLiteral (instancesMarker_offset st + of_nat i) True)
               [0..<length (distinctSortSizes st)])"



section \<open>Variable layout: \<^verbatim>\<open>reset\<close>\<close>

text \<open>
  The size of a symbol's block: \<^verbatim>\<open>add\<close> is multiplied by the size of each further slot, and
  \<^verbatim>\<open>n_add < add\<close> after a multiplication makes \<^verbatim>\<open>reset\<close> return \<^verbatim>\<open>false\<close> (\<open>None\<close>).
  For a function \<^verbatim>\<open>add\<close> starts as the size of slot 0 and the loop runs from slot 1; for a
  predicate it starts as 1 and the loop runs from slot 0.
\<close>

fun blockSize :: "u32 \<Rightarrow> u32 list \<Rightarrow> u32 option" where
  "blockSize add [] = Some add"
| "blockSize add (s # ss) =
     (let n_add = add * s in if n_add < add then None else blockSize n_add ss)"

definition functionBlock :: "FMB \<Rightarrow> nat \<Rightarrow> u32 option" where
  "functionBlock st f =
     (let f_signature = functionSignatures (sortedSignature st) ! f
      in blockSize (sortModelSizes st ! (f_signature ! 0)) (slotSizes st (tl f_signature)))"

definition predicateBlock :: "FMB \<Rightarrow> nat \<Rightarrow> u32 option" where
  "predicateBlock st p = blockSize 1 (slotSizes st (predicateSignatures (sortedSignature st) ! p))"

definition predicateCount :: "FMB \<Rightarrow> nat" where
  "predicateCount st = length (predicateSignatures (sortedSignature st))"

text \<open>
  The three loops of \<^verbatim>\<open>reset\<close> that hand out offsets have one shape: skip a deleted symbol,
  record the running offset for the symbol, compute its block (which may fail), return
  \<^verbatim>\<open>false\<close> if \<^verbatim>\<open>VAR_MAX - add < offsets\<close>, else advance. The result is the flag (\<open>False\<close> for
  the early \<^verbatim>\<open>return false\<close>), the running offset and the offset array as written so far.
\<close>

fun offsetsLoop ::
  "(nat \<Rightarrow> bool) \<Rightarrow> (nat \<Rightarrow> u32 option) \<Rightarrow> u32 \<Rightarrow> nat list \<Rightarrow> u32 \<Rightarrow> u32 list
     \<Rightarrow> bool \<times> u32 \<times> u32 list" where
  "offsetsLoop del block vmax [] offsets offs = (True, offsets, offs)"
| "offsetsLoop del block vmax (f # fs) offsets offs =
     (if del f then offsetsLoop del block vmax fs offsets offs
      else
        let offs' = offs[f := offsets] in
        case block f of
          None \<Rightarrow> (False, offsets, offs')
        | Some add \<Rightarrow>
            if vmax - add < offsets then (False, offsets, offs')
            else offsetsLoop del block vmax fs (offsets + add) offs')"

text \<open>
  \<^verbatim>\<open>marker_offsets.ensure(n)\<close> gives the array \<open>n\<close> entries; the entries it adds have no
  defined content in the source and are all overwritten by a \<^verbatim>\<open>reset\<close> that succeeds.
\<close>

definition ensure :: "nat \<Rightarrow> u32 list \<Rightarrow> u32 list" where
  "ensure n xs = take n xs @ replicate (n - length xs) 0"

text \<open>
  The end of a successful \<^verbatim>\<open>reset\<close>: a new solver is allocated and \<^verbatim>\<open>_curMaxVar\<close> is set.
  (\<^verbatim>\<open>createSymmetryOrdering\<close> only rebuilds the symmetry ordering, which is not part of
  this state.)
\<close>

definition newSolver :: "FMB \<Rightarrow> u32 \<Rightarrow> FMB" where
  "newSolver st offsets = st\<lparr>solvers := solvers st + 1, curMaxVar := offsets - 1\<rparr>"

definition reset :: "FMB \<Rightarrow> bool \<times> FMB" where
  "reset st =
     (case offsetsLoop (\<lambda>f. del_f st ! f) (functionBlock st) (VAR_MAX st)
             [0..<functionCount st] 1 (f_offsets st) of
        (ok1, offsets1, fo) \<Rightarrow>
     let st1 = st\<lparr>f_offsets := fo\<rparr> in
     if \<not> ok1 then (False, st1) else
     (case offsetsLoop (\<lambda>p. del_p st ! p) (predicateBlock st) (VAR_MAX st)
             [1..<predicateCount st] offsets1 (p_offsets st) of
        (ok2, offsets2, po) \<Rightarrow>
     let st2 = st1\<lparr>p_offsets := po\<rparr>;
         n = length (distinctSortSizes st) in
     if \<not> ok2 then (False, st2) else
     if xmass st then
       (case offsetsLoop (\<lambda>_. False) (\<lambda>i. Some (distinctSortSizes st ! i)) (VAR_MAX st)
               [0..<n] offsets2 (ensure n (marker_offsets st)) of
          (ok3, offsets3, mo) \<Rightarrow>
       let st3 = st2\<lparr>marker_offsets := mo\<rparr> in
       if \<not> ok3 then (False, st3) else (True, newSolver st3 offsets3))
     else
       let add = of_nat n;
           st3 = st2\<lparr>totalityMarker_offset := offsets2\<rparr> in
       if VAR_MAX st - add < offsets2 then (False, st3) else
       let offsets3 = offsets2 + add;
           st4 = st3\<lparr>instancesMarker_offset := offsets3\<rparr> in
       if VAR_MAX st - add < offsets3 then (False, st4)
       else (True, newSolver st4 (offsets3 + add))))"

section \<open>The enumerator of Mode B: \<^verbatim>\<open>HackyDSAE\<close>\<close>

text \<open>
  \<^verbatim>\<open>checkConstriant\<close>: the loop returns \<^verbatim>\<open>false\<close> at the first sort whose entry the size vector
  does not match, and \<^verbatim>\<open>true\<close> (the vector is ruled out by the constraint) otherwise.
\<close>

definition checkConstriant :: "u32 list \<Rightarrow> Constraint_Generator_Vals \<Rightarrow> bool" where
  "checkConstriant newSortSizes constraint =
     list_all (\<lambda>j. let cc = constraint ! j in
                 \<not> (fst cc = EQ \<and> snd cc \<noteq> newSortSizes ! j) \<and>
                 \<not> (fst cc = GEQ \<and> snd cc > newSortSizes ! j) \<and>
                 \<not> (fst cc = LEQ \<and> snd cc < newSortSizes ! j))
       [0..<length newSortSizes]"

text \<open>
  Modelled from the spec: the class \<^verbatim>\<open>BinaryHeap\<close> and the comparator
  \<^verbatim>\<open>Constraint_Generator_Compare\<close> are not part of the sources. The specification says that
  the heap of generators is ordered by weight and that each step pops the best generator:
  \<open>heapTop\<close> is an element of least weight, \<open>heapPop\<close> removes it, \<open>heapInsert\<close> adds one.
\<close>

definition heapTop :: "Constraint_Generator list \<Rightarrow> Constraint_Generator" where
  "heapTop h = arg_min_list weight h"

definition heapPop :: "Constraint_Generator list \<Rightarrow> Constraint_Generator list" where
  "heapPop h = remove1 (heapTop h) h"

definition heapInsert :: "Constraint_Generator \<Rightarrow> Constraint_Generator list \<Rightarrow> Constraint_Generator list" where
  "heapInsert g h = h @ [g]"

definition learnNogood :: "Constraint_Generator_Vals \<Rightarrow> u32 \<Rightarrow> HackyDSAE \<Rightarrow> HackyDSAE" where
  "learnNogood nogood w e =
     (let e1 = e\<lparr>constraints_generators :=
                   heapInsert \<lparr>vals = nogood, weight = w\<rparr> (constraints_generators e)\<rparr>
      in if w > maxWeightSoFar e1 then e1\<lparr>maxWeightSoFar := w\<rparr> else e1)"

text \<open>
  An artificial child: \<^verbatim>\<open>new Constraint_Generator(size, ++_maxWeightSoFar)\<close>, filled and
  inserted into the heap.
\<close>

definition insertChild :: "Constraint_Generator_Vals \<Rightarrow> HackyDSAE \<Rightarrow> HackyDSAE" where
  "insertChild gen e =
     (let w = maxWeightSoFar e + 1
      in e\<lparr>maxWeightSoFar := w,
           constraints_generators :=
             heapInsert \<lparr>vals = gen, weight = w\<rparr> (constraints_generators e)\<rparr>)"

definition constraintChild :: "u32 list \<Rightarrow> nat \<times> nat \<Rightarrow> Constraint_Generator_Vals" where
  "constraintChild newSortSizes constr =
     (let gen = map (\<lambda>s. (STAR, s)) newSortSizes;
          gen1 = gen[fst constr := (EQ, snd (gen ! fst constr))]
      in gen1[snd constr := (GEQ, snd (gen1 ! snd constr))])"

text \<open>
  The tests on one incremented candidate, in the order of the source: the maximal size of
  the incremented sort, the generators of the heap, the old generators (when they are
  kept), the non-strict and the strict distinct-sort constraints (lists in the order of
  the stack iterators). \<open>False\<close> is \<^verbatim>\<open>goto next_candidate\<close>, \<open>True\<close> is \<^verbatim>\<open>return true\<close>.
\<close>

definition testCandidate :: "FMB \<Rightarrow> u32 list \<Rightarrow> nat \<Rightarrow> u32 list \<Rightarrow> HackyDSAE \<Rightarrow> bool \<times> HackyDSAE" where
  "testCandidate st sortMaxes i newSortSizes e =
     (if newSortSizes ! i > sortMaxes ! i then (False, e)
      else if list_ex (\<lambda>g. checkConstriant newSortSizes (vals g)) (constraints_generators e)
        then (False, e)
      else if keepOldGenerators e \<and>
              list_ex (\<lambda>g. checkConstriant newSortSizes (vals g)) (old_generators e)
        then (False, insertChild (map (\<lambda>s. (EQ, s)) newSortSizes) e)
      else
        case find (\<lambda>constr. newSortSizes ! fst constr < newSortSizes ! snd constr)
               (distinct_sort_constraints st) of
          Some constr \<Rightarrow> (False, insertChild (constraintChild newSortSizes constr) e)
        | None \<Rightarrow>
            (case find (\<lambda>constr. newSortSizes ! fst constr \<le> newSortSizes ! snd constr)
                    (strict_distinct_sort_constraints st) of
               Some constr \<Rightarrow> (False, insertChild (constraintChild newSortSizes constr) e)
             | None \<Rightarrow> (True, e)))"

text \<open>The loop over the increments \<open>[+1,0,\<dots>], [0,+1,\<dots>], \<dots>\<close> of one generator.\<close>

fun tryIncrements ::
  "FMB \<Rightarrow> u32 list \<Rightarrow> nat list \<Rightarrow> u32 list \<Rightarrow> HackyDSAE \<Rightarrow> bool \<times> u32 list \<times> HackyDSAE" where
  "tryIncrements st sortMaxes [] newSortSizes e = (False, newSortSizes, e)"
| "tryIncrements st sortMaxes (i # rest) newSortSizes e =
     (let candidate = newSortSizes[i := newSortSizes ! i + 1] in
      case testCandidate st sortMaxes i candidate e of
        (True, e') \<Rightarrow> (True, candidate, e')
      | (False, e') \<Rightarrow>
          tryIncrements st sortMaxes rest (candidate[i := candidate ! i - 1]) e')"

definition popGenerator :: "HackyDSAE \<Rightarrow> HackyDSAE" where
  "popGenerator e =
     (if keepOldGenerators e
      then e\<lparr>old_generators := old_generators e @ [heapTop (constraints_generators e)],
             constraints_generators := heapPop (constraints_generators e)\<rparr>
      else e\<lparr>constraints_generators := heapPop (constraints_generators e)\<rparr>)"

text \<open>
  \<^verbatim>\<open>increaseModelSizes\<close>: the loop \<^verbatim>\<open>while (!_constraints_generators.isEmpty())\<close> may go on
  for ever (a rejected child is inserted as a new generator), so it is given fuel; \<open>None\<close>
  is running out of it. The result is the flag, the content of \<^verbatim>\<open>newSortSizes\<close> and the
  enumerator.
\<close>

fun increaseModelSizes ::
  "nat \<Rightarrow> FMB \<Rightarrow> u32 list \<Rightarrow> u32 list \<Rightarrow> HackyDSAE \<Rightarrow> (bool \<times> u32 list \<times> HackyDSAE) option" where
  "increaseModelSizes 0 st newSortSizes sortMaxes e = None"
| "increaseModelSizes (Suc fuel) st newSortSizes sortMaxes e =
     (if constraints_generators e = [] then Some (False, newSortSizes, e)
      else
        let generator = vals (heapTop (constraints_generators e));
            copied = map (\<lambda>i. snd (generator ! i)) [0..<length newSortSizes]
        in case tryIncrements st sortMaxes [0..<length newSortSizes] copied e of
             (True, sizes', e') \<Rightarrow> Some (True, sizes', e')
           | (False, sizes', e') \<Rightarrow>
               increaseModelSizes fuel st sizes' sortMaxes (popGenerator e'))"

text \<open>
  The no-good \<^verbatim>\<open>runImpl\<close> builds from the failed assumptions: every sort starts as
  \<open>(STAR, size)\<close>; a failed totality marker (a variable below \<^verbatim>\<open>instancesMarker_offset\<close>)
  tags its sort \<open>LEQ\<close> if it is monotonic and \<open>EQ\<close> otherwise; a failed instances marker
  tags its sort \<open>GEQ\<close> if the tag is still \<open>STAR\<close>.
\<close>

definition nogoodOfFailed :: "FMB \<Rightarrow> SATLiteral list \<Rightarrow> Constraint_Generator_Vals" where
  "nogoodOfFailed st failed =
     fold (\<lambda>lit nogood.
             if var lit < instancesMarker_offset st then
               (let dsort = unat (var lit - totalityMarker_offset st)
                in if monotonicSorts (sortedSignature st) ! dsort
                   then nogood[dsort := (LEQ, snd (nogood ! dsort))]
                   else nogood[dsort := (EQ, snd (nogood ! dsort))])
             else if fst (nogood ! unat (var lit - instancesMarker_offset st)) = STAR
               then nogood[unat (var lit - instancesMarker_offset st) :=
                             (GEQ, snd (nogood ! unat (var lit - instancesMarker_offset st)))]
             else nogood)
          failed (map (\<lambda>s. (STAR, s)) (distinctSortSizes st))"

section \<open>Growing the sizes in CONTOUR mode\<close>

definition estimateInstanceCount :: "FMB \<Rightarrow> u32" where
  "estimateInstanceCount st =
     fold (\<lambda>c res.
             case clauseVariableSorts c of
               None \<Rightarrow> res
             | Some varSorts \<Rightarrow>
                 res + fold (\<lambda>v instances.
                               instances *
                               min (distinctSortSizes st ! (parents (sortedSignature st) ! (varSorts ! v)))
                                   (sortBounds (sortedSignature st) ! (varSorts ! v)))
                            [0..<varCnt c] 1)
          (clauses st) 0"

text \<open>
  One round of the loop over the failed assumptions: \<open>srt\<close> is the sort of the failed
  marker (\<^verbatim>\<open>which_sort\<close>, declared outside the sources, is a parameter); a sort at its
  maximum is skipped; the weight is the estimated instance count after growing the sort,
  or its size, depending on the alternator; the lightest sort so far is kept.
  (\<^verbatim>\<open>_sizeWeightRatio+1\<close> is not zero for the values the option admits.)
\<close>

definition growthCandidate :: "(FMB \<Rightarrow> u32 \<Rightarrow> nat) \<Rightarrow> FMB \<Rightarrow> SATLiteral \<Rightarrow> u32 \<times> u32 \<Rightarrow> u32 \<times> u32" where
  "growthCandidate which_sort st lit = (\<lambda>(domToGrow, domsWeight).
     let srt = which_sort st (var lit) in
     if distinctSortSizes st ! srt = distinctSortMaxs st ! srt then (domToGrow, domsWeight)
     else
       let w = (if alternator st mod (sizeWeightRatio st + 1) \<noteq> 0
                then estimateInstanceCount
                       (st\<lparr>distinctSortSizes :=
                             (distinctSortSizes st)[srt := distinctSortSizes st ! srt + 1]\<rparr>)
                else distinctSortSizes st ! srt)
       in if w < domsWeight then (of_nat srt, w) else (domToGrow, domsWeight))"

text \<open>
  The two loops inside \<^verbatim>\<open>do { \<dots> } while (updated)\<close>. Each runs while its iterator has a
  next element and returns the sizes, the flag and the iterator as the loop leaves it.
\<close>

fun nonstrictLoop :: "(nat \<times> nat) list \<Rightarrow> u32 list \<Rightarrow> bool \<Rightarrow> u32 list \<times> bool \<times> (nat \<times> nat) list" where
  "nonstrictLoop [] sizes updated = (sizes, updated, [])"
| "nonstrictLoop (constr # it) sizes updated =
     (if sizes ! fst constr < sizes ! snd constr
      then nonstrictLoop it (sizes[fst constr := sizes ! snd constr]) True
      else nonstrictLoop it sizes updated)"

fun strictLoop :: "(nat \<times> nat) list \<Rightarrow> u32 list \<Rightarrow> bool \<Rightarrow> u32 list \<times> bool \<times> (nat \<times> nat) list" where
  "strictLoop [] sizes updated = (sizes, updated, [])"
| "strictLoop (constr # it) sizes updated =
     (if sizes ! fst constr \<le> sizes ! snd constr
      then strictLoop it (sizes[fst constr := sizes ! snd constr + 1]) True
      else strictLoop it sizes updated)"

text \<open>
  The fixpoint loop as the source has it: \<^verbatim>\<open>it1\<close> iterates the non-strict constraints,
  \<^verbatim>\<open>it2\<close> is created on the strict ones, but the second loop again tests and advances
  \<^verbatim>\<open>it1\<close>, which the first loop has just exhausted. \<open>None\<close> is a loop that does not end.
\<close>

partial_function (option) constraintFixpoint ::
  "(nat \<times> nat) list \<Rightarrow> (nat \<times> nat) list \<Rightarrow> u32 list \<Rightarrow> u32 list option" where
  "constraintFixpoint nonstrict strict sizes =
     (case nonstrictLoop nonstrict sizes False of
        (sizes1, updated1, it1) \<Rightarrow>
          let it2 = strict in
          (case strictLoop it1 sizes1 updated1 of
             (sizes2, updated2, it1') \<Rightarrow>
               if updated2 then constraintFixpoint nonstrict strict sizes2
               else Some sizes2))"

declare constraintFixpoint.simps [code]

definition syncSortModelSizes :: "FMB \<Rightarrow> FMB" where
  "syncSortModelSizes st =
     st\<lparr>sortModelSizes :=
          map (\<lambda>s. distinctSortSizes st ! (parents (sortedSignature st) ! s))
              [0..<length (parents (sortedSignature st))]\<rparr>"

section \<open>The driver: \<^verbatim>\<open>runImpl\<close>\<close>

datatype TerminationReason =
  SATISFIABLE | REFUTATION | INAPPROPRIATE | TIME_LIMIT | REFUTATION_NOT_FOUND

datatype InferenceRule = MODEL_NOT_FOUND

text \<open>The refutation \<^verbatim>\<open>new(0) Clause(0, NonspecificInference0(AXIOM, MODEL_NOT_FOUND))\<close>.\<close>

datatype KernelClause = KernelClause (clauseLength: nat) (inferenceRule: InferenceRule)

datatype MainLoopResult = MainLoopResult TerminationReason "KernelClause option"

datatype SolverStatus = SolverSATISFIABLE "u32 \<Rightarrow> bool" | SolverUNSATISFIABLE "SATLiteral list"

text \<open>
  What the driver calls outside the sources: \<^verbatim>\<open>SATClause::removeDuplicateLiterals\<close> (a null
  result is \<open>None\<close>), the symmetry axioms (they depend on the symmetry ordering, which is
  not modelled), \<^verbatim>\<open>which_sort\<close>, the clock (asked once per round, here by the number of
  solver calls so far), \<^verbatim>\<open>Shuffling::shuffleArray\<close>, the SAT solver (its answer to the
  clauses of the round and the assumptions: an assignment, or the failed assumptions), and
  \<^verbatim>\<open>init\<close> and \<^verbatim>\<open>isFmbComplete\<close> of the enumerator, which the class declaration defines
  (the latter is given the number of distinct sorts).
\<close>

record Externals =
  removeDuplicateLiterals :: "SATClause \<Rightarrow> SATClause option"
  symmetryAxioms :: "FMB \<Rightarrow> SATClause list"
  which_sort :: "FMB \<Rightarrow> u32 \<Rightarrow> nat"
  timeLimitReached :: "nat \<Rightarrow> bool"
  shuffleArray :: "SATClause list \<Rightarrow> SATClause list"
  solveUnderAssumptions :: "SATClause list \<Rightarrow> SATLiteral list \<Rightarrow> SolverStatus"
  enumeratorInit :: "FMB \<Rightarrow> bool"
  isFmbComplete :: "nat \<Rightarrow> bool"

definition addSATClause :: "Externals \<Rightarrow> SATClause \<Rightarrow> SATClause list \<Rightarrow> SATClause list" where
  "addSATClause ext cl toBeAdded =
     (case removeDuplicateLiterals ext cl of
        None \<Rightarrow> toBeAdded
      | Some cl' \<Rightarrow> toBeAdded @ [cl'])"

definition addGroundClauses :: "FMB \<Rightarrow> SATClause list" where
  "addGroundClauses st =
     map (map (\<lambda>(f, pol). getSATLiteral st f [] pol False)) (groundClauses st)"

text \<open>
  The constraint creation of one round; every clause goes through \<^verbatim>\<open>addSATClause\<close>.
  \<open>None\<close>: a totality loop does not end.
\<close>

definition encode :: "Externals \<Rightarrow> FMB \<Rightarrow> FMB option" where
  "encode ext st =
     (case addNewTotalityDefs st of
        None \<Rightarrow> None
      | Some totality \<Rightarrow>
          Some (st\<lparr>clausesToBeAdded :=
                     fold (addSATClause ext)
                       (addGroundClauses st @ addNewInstances st @ addNewFunctionalDefs st
                          @ symmetryAxioms ext st @ totality)
                       (clausesToBeAdded st)\<rparr>))"

text \<open>
  On a model in CONTOUR mode every sort is retracted to \<open>j + 1\<close> for the first \<open>j\<close> whose
  marker is false in the assignment.
\<close>

definition retractSizes :: "(u32 \<Rightarrow> bool) \<Rightarrow> FMB \<Rightarrow> u32 list" where
  "retractSizes \<sigma> st =
     map (\<lambda>i. case find (\<lambda>j. \<not> \<sigma> (marker_offsets st ! i + of_nat j))
                      [0..<unat (distinctSortSizes st ! i)] of
                 Some j \<Rightarrow> of_nat j + 1
               | None \<Rightarrow> distinctSortSizes st ! i + 1)
         [0..<length (distinctSortSizes st)]"

definition modelNotFound :: MainLoopResult where
  "modelNotFound = MainLoopResult REFUTATION (Some (KernelClause 0 MODEL_NOT_FOUND))"

text \<open>
  After an UNSAT answer: \<open>Inl\<close> is a \<^verbatim>\<open>return\<close> (or the jump to \<^verbatim>\<open>gave_up\<close>), \<open>Inr\<close> the state
  with which the loop goes on to \<^verbatim>\<open>reset\<close>. \<open>w\<close> is the number of clauses of the round.
\<close>

definition onUnsat ::
  "nat \<Rightarrow> Externals \<Rightarrow> FMB \<Rightarrow> u32 \<Rightarrow> SATLiteral list \<Rightarrow> (MainLoopResult \<times> FMB + FMB) option" where
  "onUnsat fuel ext st w failed =
     (if xmass st then
        let st1 = st\<lparr>alternator := alternator st + 1\<rparr> in
        case fold (growthCandidate (which_sort ext) st1) failed (- 1, - 1) of
          (domToGrow, domsWeight) \<Rightarrow>
            if domsWeight < - 1 then
              (case constraintFixpoint (distinct_sort_constraints st1)
                      (strict_distinct_sort_constraints st1)
                      ((distinctSortSizes st1)
                         [unat domToGrow := distinctSortSizes st1 ! unat domToGrow + 1]) of
                 None \<Rightarrow> None
               | Some sizes' \<Rightarrow> Some (Inr (syncSortModelSizes (st1\<lparr>distinctSortSizes := sizes'\<rparr>))))
            else Some (Inl (modelNotFound, st1))
      else
        let nogood = nogoodOfFailed st failed;
            e1 = learnNogood nogood w (dsaEnumerator st)
        in case increaseModelSizes fuel st (distinctSortSizes st) (distinctSortMaxs st) e1 of
             None \<Rightarrow> None
           | Some (False, sizes', e2) \<Rightarrow>
               let st1 = st\<lparr>distinctSortSizes := sizes', dsaEnumerator := e2\<rparr> in
               if isFmbComplete ext (length (distinctSortSizes st1))
               then Some (Inl (modelNotFound, st1))
               else Some (Inl (MainLoopResult REFUTATION_NOT_FOUND None, st1))
           | Some (True, sizes', e2) \<Rightarrow>
               Some (Inr (syncSortModelSizes
                            (st\<lparr>distinctSortSizes := sizes', dsaEnumerator := e2\<rparr>))))"

text \<open>
  The loop \<^verbatim>\<open>while(true)\<close> of \<^verbatim>\<open>runImpl\<close>, entered after a successful \<^verbatim>\<open>reset\<close>, with fuel
  for its rounds.
\<close>

fun mainLoop :: "nat \<Rightarrow> Externals \<Rightarrow> FMB \<Rightarrow> (MainLoopResult \<times> FMB) option" where
  "mainLoop 0 ext st = None"
| "mainLoop (Suc fuel) ext st =
     (if timeLimitReached ext (solverCalls st) then Some (MainLoopResult TIME_LIMIT None, st)
      else
        case encode ext st of
          None \<Rightarrow> None
        | Some st1 \<Rightarrow>
            let st2 = st1\<lparr>clausesToBeAdded := shuffleArray ext (clausesToBeAdded st1),
                          solverCalls := solverCalls st1 + 1\<rparr>
            in case solveUnderAssumptions ext (clausesToBeAdded st2) (assumptions st2) of
                 SolverSATISFIABLE \<sigma> \<Rightarrow>
                   Some (MainLoopResult SATISFIABLE None,
                         if xmass st2 then st2\<lparr>distinctSortSizes := retractSizes \<sigma> st2\<rparr> else st2)
               | SolverUNSATISFIABLE failed \<Rightarrow>
                   (case onUnsat fuel ext (st2\<lparr>clausesToBeAdded := []\<rparr>)
                           (of_nat (length (clausesToBeAdded st2))) failed of
                      None \<Rightarrow> None
                    | Some (Inl result) \<Rightarrow> Some result
                    | Some (Inr st3) \<Rightarrow>
                        (case reset st3 of
                           (False, st4) \<Rightarrow> Some (MainLoopResult REFUTATION_NOT_FOUND None, st4)
                         | (True, st4) \<Rightarrow> mainLoop fuel ext st4)))"

text \<open>
  The initial size vector: \<^verbatim>\<open>_distinctSortSizes[i] = std::max(_startModelSize, _distinctSortMins[i])\<close>
  for every distinct sort.
\<close>

definition initialSizes :: "FMB \<Rightarrow> u32 list" where
  "initialSizes st = map (\<lambda>m. max (startModelSize st) m) (distinctSortMins st)"

definition runImpl :: "nat \<Rightarrow> Externals \<Rightarrow> FMB \<Rightarrow> (MainLoopResult \<times> FMB) option" where
  "runImpl fuel ext st =
     (if \<not> isAppropriate st then Some (MainLoopResult INAPPROPRIATE None, st)
      else if units st = [] then Some (MainLoopResult SATISFIABLE None, st)
      else
        let st1 = syncSortModelSizes (st\<lparr>distinctSortSizes := initialSizes st\<rparr>)
        in if \<not> xmass st1 \<and> \<not> enumeratorInit ext st1
           then Some (MainLoopResult REFUTATION_NOT_FOUND None, st1)
           else (case reset st1 of
                   (False, st2) \<Rightarrow> Some (MainLoopResult REFUTATION_NOT_FOUND None, st2)
                 | (True, st2) \<Rightarrow> mainLoop fuel ext st2))"

section \<open>A small signature used for the concrete checks\<close>

text \<open>
  One sort of size 2 (bound 2, not monotonic), one unary function \<open>f\<^sub>0\<close>, the equality
  predicate 0 and one unary predicate \<open>p\<^sub>1\<close>; the clause \<open>f\<^sub>0(X\<^sub>0) = X\<^sub>1 \<or> X\<^sub>0 \<simeq> X\<^sub>1 \<or> \<not> p\<^sub>1(X\<^sub>0)\<close>
  with either polarity of the variable equality. The offsets are those \<^verbatim>\<open>reset\<close> computes.
\<close>

definition exampleSignature :: SortedSignature where
  "exampleSignature =
     \<lparr>parents = [0], sortBounds = [2], monotonicSorts = [False],
      functionSignatures = [[0, 0]], predicateSignatures = [[0, 0], [0]]\<rparr>"

definition exampleClause :: "bool \<Rightarrow> Clause" where
  "exampleClause isPositive =
     \<lparr>varCnt = 2,
      literals = [FunctionEquality True 0 [0] 1, TwoVarEquality isPositive 0 1,
                  PredicateLiteral False 1 [0]],
      clauseVariableSorts = Some [0, 0]\<rparr>"

definition emptyEnumerator :: HackyDSAE where
  "emptyEnumerator =
     \<lparr>constraints_generators = [], old_generators = [], maxWeightSoFar = 0,
      keepOldGenerators = False\<rparr>"

definition exampleFMB :: "bool \<Rightarrow> FMB" where
  "exampleFMB x =
     \<lparr>isAppropriate = True, units = [exampleClause True],
      sortedSignature = exampleSignature, del_f = [False], del_p = [False, False],
      groundClauses = [], clauses = [exampleClause True], xmass = x,
      startModelSize = 2, sizeWeightRatio = 1, VAR_MAX = 0x3FFFFFFF,
      distinctSortMins = [1], distinctSortMaxs = [- 1],
      distinct_sort_constraints = [], strict_distinct_sort_constraints = [],
      sortModelSizes = [2], distinctSortSizes = [2],
      f_offsets = [1], p_offsets = [0, 5], marker_offsets = [7],
      totalityMarker_offset = 7, instancesMarker_offset = 8, curMaxVar = 8,
      solvers = 1, solverCalls = 0, clausesToBeAdded = [], alternator = 0,
      dsaEnumerator = emptyEnumerator\<rparr>"

text \<open>
  The same with a sort bound of 1 below the size 2 and a single constant \<open>c\<^sub>0\<close>, in CONTOUR
  mode: \<^verbatim>\<open>reset\<close> gives the constant the variables 1 and 2 and the sort the markers 3 and 4.
\<close>

definition boundedFMB :: FMB where
  "boundedFMB =
     (exampleFMB True)
       \<lparr>sortedSignature :=
          \<lparr>parents = [0], sortBounds = [1], monotonicSorts = [False],
           functionSignatures = [[0]], predicateSignatures = [[0, 0]]\<rparr>,
        del_p := [False], clauses := [],
        f_offsets := [1], p_offsets := [0], marker_offsets := [3],
        totalityMarker_offset := 0, instancesMarker_offset := 0, curMaxVar := 4\<rparr>"

text \<open>
  The same state with the sort at its maximal size 2, and stand-ins for what the driver
  calls outside the sources: a solver with a fixed answer, an enumerator whose
  \<^verbatim>\<open>isFmbComplete\<close> answers \<open>complete\<close>, no symmetry axioms, no time limit, no shuffling.
\<close>

definition maxedFMB :: "bool \<Rightarrow> FMB" where
  "maxedFMB x = (exampleFMB x)\<lparr>distinctSortMaxs := [2]\<rparr>"

definition exampleExternals :: "SolverStatus \<Rightarrow> bool \<Rightarrow> Externals" where
  "exampleExternals answer complete =
     \<lparr>removeDuplicateLiterals = (\<lambda>cl. Some (remdups cl)),
      symmetryAxioms = (\<lambda>st. []),
      which_sort = (\<lambda>st v. 0),
      timeLimitReached = (\<lambda>n. False),
      shuffleArray = (\<lambda>cls. cls),
      solveUnderAssumptions = (\<lambda>cls assumed. answer),
      enumeratorInit = (\<lambda>st. True),
      isFmbComplete = (\<lambda>noDomains. complete)\<rparr>"

text \<open>
  Two sorts in CONTOUR mode, a constant in each, sizes 2 and 1, and the strict constraint
  \<open>size[0] > size[1]\<close>; \<^verbatim>\<open>reset\<close> puts the markers of the sorts at 4 and 6. The solver
  answers UNSAT with the assumption of sort 1 failed.
\<close>

definition twoSortFMB :: FMB where
  "twoSortFMB =
     (exampleFMB True)
       \<lparr>sortedSignature :=
          \<lparr>parents = [0, 1], sortBounds = [- 1, - 1], monotonicSorts = [False, False],
           functionSignatures = [[0], [1]], predicateSignatures = [[0, 0]]\<rparr>,
        del_f := [False, False], del_p := [False], clauses := [],
        distinctSortMins := [1, 1], distinctSortMaxs := [- 1, - 1],
        strict_distinct_sort_constraints := [(0, 1)],
        sortModelSizes := [2, 1], distinctSortSizes := [2, 1],
        f_offsets := [1, 3], p_offsets := [0], marker_offsets := [4, 6], curMaxVar := 6\<rparr>"

definition twoSortExternals :: Externals where
  "twoSortExternals =
     (exampleExternals (SolverUNSATISFIABLE [SATLiteral 6 False]) True)
       \<lparr>which_sort := (\<lambda>st v. if v < marker_offsets st ! 1 then 0 else 1)\<rparr>"

section \<open>Notions used to state the properties\<close>

text \<open>The result sort of a function (the last slot of its signature) and the bound on its values.\<close>

definition resultSort :: "FMB \<Rightarrow> nat \<Rightarrow> nat" where
  "resultSort st f = functionSignatures (sortedSignature st) ! f ! functionArity st f"

definition maxRet :: "FMB \<Rightarrow> nat \<Rightarrow> u32" where
  "maxRet st f = maxSizeOfSort st (resultSort st f)"

text \<open>The literals \<open>f(grounding) = 1, \<dots>, f(grounding) = i\<close>.\<close>

definition resultValues :: "FMB \<Rightarrow> nat \<Rightarrow> u32 list \<Rightarrow> u32 \<Rightarrow> SATLiteral list" where
  "resultValues st f grounding i =
     map (\<lambda>r. getSATLiteral st f (grounding @ [of_nat r]) True True) [1..<Suc (unat i)]"

text \<open>
  The marker index of a totality clause as the specification words it:
  \<open>m = min(i - 1, size[s] - 1)\<close>.
\<close>

definition specMarkerIdx :: "FMB \<Rightarrow> nat \<Rightarrow> u32 \<Rightarrow> u32" where
  "specMarkerIdx st s i = min (i - 1) (distinctSortSizes st ! s - 1)"

text \<open>
  The enumeration of size vectors is exhausted after an UNSAT answer: in CONTOUR mode when
  every sort named by a failed assumption is at its maximal size, in Mode B when
  \<^verbatim>\<open>increaseModelSizes\<close> returns \<^verbatim>\<open>false\<close> after the no-good has been learnt.
\<close>

definition enumeratorExhausted :: "nat \<Rightarrow> Externals \<Rightarrow> FMB \<Rightarrow> u32 \<Rightarrow> SATLiteral list \<Rightarrow> bool" where
  "enumeratorExhausted fuel ext st w failed =
     (if xmass st
      then list_all (\<lambda>lit. distinctSortSizes st
                             ! which_sort ext (st\<lparr>alternator := alternator st + 1\<rparr>) (var lit)
                          = distinctSortMaxs st
                             ! which_sort ext (st\<lparr>alternator := alternator st + 1\<rparr>) (var lit))
             failed
      else (case increaseModelSizes fuel st (distinctSortSizes st) (distinctSortMaxs st)
                   (learnNogood (nogoodOfFailed st failed) w (dsaEnumerator st)) of
              Some (False, sizes', e2) \<Rightarrow> True
            | _ \<Rightarrow> False))"

text \<open>
  The strategy counts as complete when the enumerator says so; CONTOUR mode has no
  enumerator object and no completeness test of its own, the driver treats it as complete.
\<close>

definition strategyComplete :: "Externals \<Rightarrow> FMB \<Rightarrow> bool" where
  "strategyComplete ext st = (xmass st \<or> isFmbComplete ext (length (distinctSortSizes st)))"

text \<open>
  A size vector matches a no-good as the specification words it: \<open>G.EQ.s = v[s]\<close> for the
  \<open>EQ\<close> entries, \<open>G.GEQ.s \<le> v[s]\<close> for the \<open>GEQ\<close> entries and \<open>G.LEQ.s \<ge> v[s]\<close> for the \<open>LEQ\<close>
  entries.
\<close>

definition matchesNogood :: "Constraint_Generator_Vals \<Rightarrow> u32 list \<Rightarrow> bool" where
  "matchesNogood G v =
     (\<forall>s \<in> {..<length v}.
        (fst (G ! s) = EQ \<longrightarrow> snd (G ! s) = v ! s) \<and>
        (fst (G ! s) = GEQ \<longrightarrow> snd (G ! s) \<le> v ! s) \<and>
        (fst (G ! s) = LEQ \<longrightarrow> snd (G ! s) \<ge> v ! s))"

text \<open>
  The no-goods and generators the enumerator still holds: those of the heap, and the old
  ones when \<^verbatim>\<open>_keepOldGenerators\<close> is set (otherwise a popped generator is deleted).
\<close>

definition retained :: "HackyDSAE \<Rightarrow> Constraint_Generator list" where
  "retained e =
     constraints_generators e @ (if keepOldGenerators e then old_generators e else [])"

text \<open>
  The two marker blocks of Mode B as \<^verbatim>\<open>reset\<close> lays them out when nothing wraps: the
  instances markers follow the totality markers, one variable per distinct sort.
\<close>

definition markerLayout :: "FMB \<Rightarrow> bool" where
  "markerLayout st =
     (instancesMarker_offset st = totalityMarker_offset st + of_nat (length (distinctSortSizes st))
      \<and> unat (totalityMarker_offset st) + 2 * length (distinctSortSizes st) < 2 ^ 32)"

text \<open>
  The tag of sort \<open>s\<close> in a no-good, from the set of failed variables: \<open>EQ\<close> (\<open>LEQ\<close> for a
  monotonic sort) if the totality marker of \<open>s\<close> failed, else \<open>GEQ\<close> if its instances
  marker failed, else \<open>STAR\<close>.
\<close>

definition specTag :: "FMB \<Rightarrow> u32 set \<Rightarrow> nat \<Rightarrow> ConstraintSign" where
  "specTag st S s =
     (if totalityMarker_offset st + of_nat s \<in> S
      then (if monotonicSorts (sortedSignature st) ! s then LEQ else EQ)
      else if instancesMarker_offset st + of_nat s \<in> S then GEQ else STAR)"

subsection \<open>Notions for the variable layout\<close>

text \<open>
  A tuple is within the current domain sizes when it has one value per slot and each
  value lies between 1 and the size of the slot's sort.
\<close>

definition inRange :: "u32 list \<Rightarrow> u32 list \<Rightarrow> bool" where
  "inRange sizes t = list_all2 (\<lambda>x s. 1 \<le> x \<and> x \<le> s) t sizes"

text \<open>
  The mixed-radix index as the specification words it:
  \<open>\<Sum>\<^sub>i (tuple[i] - 1) * \<Prod>\<^sub>j\<^sub><\<^sub>i size(sort\<^sub>j)\<close>, over the natural numbers.
\<close>

definition mixedRadix :: "nat list \<Rightarrow> nat list \<Rightarrow> nat" where
  "mixedRadix t sizes = (\<Sum>i<length t. (t ! i - 1) * (\<Prod>j<i. sizes ! j))"

text \<open>
  The same index in Horner form, which is the shape of the loop of \<^verbatim>\<open>getSATLiteral\<close>.
\<close>

fun horner :: "nat list \<Rightarrow> nat list \<Rightarrow> nat" where
  "horner (x # xs) (s # ss) = (x - 1) + s * horner xs ss"
| "horner _ _ = 0"

definition inRangeNat :: "nat list \<Rightarrow> nat list \<Rightarrow> bool" where
  "inRangeNat ss xs = list_all2 (\<lambda>x s. 1 \<le> x \<and> x \<le> s) xs ss"

text \<open>
  A list of (offset, length) blocks that tile the interval from \<open>a\<close> to \<open>b\<close> without gap
  or overlap.
\<close>

fun chain :: "nat \<Rightarrow> (nat \<times> nat) list \<Rightarrow> nat \<Rightarrow> bool" where
  "chain a [] b = (a = b)"
| "chain a ((off, sz) # rest) b = (off = a \<and> chain (a + sz) rest b)"

text \<open>
  The symbols that \<^verbatim>\<open>reset\<close> lays out, in its order: the non-deleted functions, then the
  non-deleted predicates from 1 on (predicate 0 is equality). A symbol is a pair of the
  \<^verbatim>\<open>isFunction\<close> flag and the symbol number.
\<close>

definition symbolList :: "FMB \<Rightarrow> (bool \<times> nat) list" where
  "symbolList st =
     map (Pair True) (filter (\<lambda>f. \<not> del_f st ! f) [0..<functionCount st])
     @ map (Pair False) (filter (\<lambda>p. \<not> del_p st ! p) [1..<predicateCount st])"

definition validSymbol :: "FMB \<Rightarrow> bool \<times> nat \<Rightarrow> bool" where
  "validSymbol st symb =
     (if fst symb then snd symb < functionCount st \<and> \<not> del_f st ! snd symb
      else 0 < snd symb \<and> snd symb < predicateCount st \<and> \<not> del_p st ! snd symb)"

definition symbolSlotSizes :: "FMB \<Rightarrow> bool \<times> nat \<Rightarrow> u32 list" where
  "symbolSlotSizes st symb = slotSizes st (symbolSignature st (fst symb) (snd symb))"

text \<open>
  The number of tuples of a symbol, over the natural numbers.
\<close>

definition trueBlock :: "FMB \<Rightarrow> bool \<times> nat \<Rightarrow> nat" where
  "trueBlock st symb = prod_list (map unat (symbolSlotSizes st symb))"

text \<open>
  The number of marker variables that \<^verbatim>\<open>reset\<close> puts after the symbol blocks: one per
  domain element of every distinct sort in CONTOUR mode, two per distinct sort in Mode B.
\<close>

definition markerCount :: "FMB \<Rightarrow> nat" where
  "markerCount st =
     (if xmass st then sum_list (map unat (distinctSortSizes st))
      else 2 * length (distinctSortSizes st))"

definition varId :: "FMB \<Rightarrow> bool \<times> nat \<Rightarrow> u32 list \<Rightarrow> u32" where
  "varId st symb t = var (getSATLiteral st (snd symb) t True (fst symb))"

text \<open>
  The layout fits the 32-bit counters: the offset arrays have one entry per symbol, every
  function has a result slot, every slot has at least one value, and the variables of all
  blocks and markers, counted over the natural numbers, stay below \<open>2\<^sup>3\<^sup>2\<close>.
\<close>

definition layoutFits :: "FMB \<Rightarrow> bool" where
  "layoutFits st =
     (length (f_offsets st) = functionCount st \<and> length (p_offsets st) = predicateCount st
      \<and> (\<forall>f \<in> {..<functionCount st}. functionSignatures (sortedSignature st) ! f \<noteq> [])
      \<and> (\<forall>symb \<in> set (symbolList st). \<forall>s \<in> set (symbolSlotSizes st symb). 1 \<le> s)
      \<and> 1 + sum_list (map (trueBlock st) (symbolList st)) + markerCount st < 2 ^ 32)"

text \<open>
  The pairs of a non-deleted symbol and a tuple within the current domain sizes.
\<close>

definition layoutTuples :: "FMB \<Rightarrow> ((bool \<times> nat) \<times> u32 list) set" where
  "layoutTuples st = {(symb, t). validSymbol st symb \<and> inRange (symbolSlotSizes st symb) t}"

text \<open>
  The example signature in Mode B with its sort at size 65537: the block of the unary
  function has \<open>65537\<^sup>2 = 2\<^sup>3\<^sup>2 + 131073\<close> tuples.
\<close>

definition overflowFMB :: FMB where
  "overflowFMB = (exampleFMB False)\<lparr>sortModelSizes := [65537], distinctSortSizes := [65537]\<rparr>"

subsection \<open>Notions for the bounds of the sizes\<close>








subsection \<open>Notions for the functions of a model\<close>

text \<open>The order in which the odometer visits the groundings: lexicographic, left-most first.\<close>

fun lexLess :: "u32 list \<Rightarrow> u32 list \<Rightarrow> bool" where
  "lexLess (x # xs) (y # ys) = (x < y \<or> (x = y \<and> lexLess xs ys))"
| "lexLess _ _ = False"




subsection \<open>Notions for the instances of a clause\<close>

text \<open>
  The bound of every variable of a clause, and the groundings within these bounds: one
  value per variable, between 1 and \<^verbatim>\<open>std::min\<close> of the bound and the size of its sort.
\<close>

definition instanceMaxVarSize :: "FMB \<Rightarrow> Clause \<Rightarrow> nat list \<Rightarrow> u32 list" where
  "instanceMaxVarSize st c varSorts = map (\<lambda>v. maxSizeOfSort st (varSorts ! v)) [0..<varCnt c]"

definition groundingWithin :: "FMB \<Rightarrow> Clause \<Rightarrow> nat list \<Rightarrow> u32 list \<Rightarrow> bool" where
  "groundingWithin st c varSorts grounding =
     list_all2 (\<lambda>x m. 1 \<le> x \<and> x \<le> m) grounding (instanceMaxVarSize st c varSorts)"

text \<open>
  Two sorts in Mode B at the sizes \<open>[2, 1]\<close>, which are also their maxima, a constant in
  each; the enumerator, which does not keep old generators, still holds the no-good of the
  earlier vector \<open>[1, 1]\<close> as a generator of weight 5. \<^verbatim>\<open>reset\<close> puts the totality markers
  at 4 and 5 and the instances markers at 6 and 7.
\<close>

definition revisitFMB :: FMB where
  "revisitFMB =
     twoSortFMB
       \<lparr>xmass := False, distinctSortMaxs := [2, 1], strict_distinct_sort_constraints := [],
        f_offsets := [1, 3], totalityMarker_offset := 4, instancesMarker_offset := 6,
        curMaxVar := 7,
        dsaEnumerator :=
          emptyEnumerator\<lparr>constraints_generators := [\<lparr>vals = [(EQ, 1), (EQ, 1)], weight = 5\<rparr>]\<rparr>\<rparr>"

text \<open>
  The marker variables: in CONTOUR mode the variables \<open>marker_offsets[i] + j\<close> for every
  distinct sort \<open>i\<close> and \<open>j\<close> below its size, in Mode B the variables
  \<open>totalityMarker_offset + i\<close> and \<open>instancesMarker_offset + i\<close> for every distinct sort \<open>i\<close>.
\<close>

definition markerVars :: "FMB \<Rightarrow> u32 set" where
  "markerVars st =
     (if xmass st
      then {marker_offsets st ! i + of_nat j | i j.
              i < length (distinctSortSizes st) \<and> j < unat (distinctSortSizes st ! i)}
      else {totalityMarker_offset st + of_nat i | i. i < length (distinctSortSizes st)}
           \<union> {instancesMarker_offset st + of_nat i | i. i < length (distinctSortSizes st)})"



section \<open>Evaluation helpers\<close>

lemmas example_defs = exampleFMB_def exampleSignature_def exampleClause_def emptyEnumerator_def

lemmas literal_defs = getSATLiteral_def symbolOffset_def symbolSignature_def slotSizes_def

lemmas instance_defs = upt_rec contourSortMaxes_def sbmeamSortFlags_def instanceMarkers_def
  groundInstance_def

lemma word_inc_bounds:
  fixes x y :: u32
  assumes "x < y"
  shows "x \<le> x + 1" and "x + 1 \<le> y" and "x < x + 1"
proof -
  from assms have "unat x < unat y" by (simp add: word_less_nat_alt)
  moreover have "unat y < 2 ^ 32" using unsigned_less [of y] by simp
  ultimately have "unat x + unat (1 :: u32) < 2 ^ LENGTH(32)" by simp
  then have u: "unat (x + 1) = unat x + 1" by (simp add: unat_add_lem [THEN iffD1])
  show "x \<le> x + 1" by (simp add: word_le_nat_alt u)
  from \<open>unat x < unat y\<close> show "x + 1 \<le> y" by (simp add: word_le_nat_alt u)
  show "x < x + 1" by (simp add: word_less_nat_alt u)
qed

section \<open>The groundings visited by the odometer\<close>

lemma odometer_length: "odometer g ms = Some g' \<Longrightarrow> length g' = length g"
  by (induction g ms arbitrary: g' rule: odometer.induct) (auto split: option.splits if_splits)

lemma odometer_None: "length g = length ms \<Longrightarrow> odometer g ms = None \<Longrightarrow> g = ms"
  by (induction g ms rule: odometer.induct) (auto split: option.splits if_splits)

lemma lexLess_pointwise: "list_all2 (\<lambda>y x. y \<le> x) ts gs \<Longrightarrow> \<not> lexLess gs ts"
  by (induction ts gs rule: list_all2_induct) auto

lemma ones_lexLess:
  "\<forall>y \<in> set ts. 1 \<le> y \<Longrightarrow> length gs = length ts \<Longrightarrow>
   map (\<lambda>_. 1) gs = ts \<or> lexLess (map (\<lambda>_. 1) gs) ts"
proof (induction gs ts rule: list_induct2')
  case (4 g gs y ts)
  then show ?case by (cases "y = 1") (auto simp: less_le)
qed simp_all

lemma odometer_bounded:
  "odometer g ms = Some g' \<Longrightarrow> list_all2 (\<lambda>x m. x \<le> m) g ms \<Longrightarrow> \<forall>m \<in> set ms. 1 \<le> m \<Longrightarrow>
   list_all2 (\<lambda>x m. x \<le> m) g' ms"
proof (induction g ms arbitrary: g' rule: odometer.induct)
  case (1 a as b bs)
  from "1.prems"(2) have ab: "a \<le> b" and asbs: "list_all2 (\<lambda>x m. x \<le> m) as bs" by simp_all
  from "1.prems"(3) have bs1: "\<forall>m \<in> set bs. 1 \<le> m" by simp
  show ?case
  proof (cases "odometer as bs")
    case (Some as')
    with "1.prems"(1) have "g' = a # as'" by simp
    with "1.IH" [OF Some asbs bs1] ab show ?thesis by simp
  next
    case None
    with "1.prems"(1) have ne: "a \<noteq> b" and g: "g' = (a + 1) # map (\<lambda>_. 1) as"
      by (auto split: if_splits)
    from ab ne have "a < b" by simp
    then have "a + 1 \<le> b" by (simp add: inc_le)
    moreover have "list_all2 (\<lambda>x m. x \<le> m) (map (\<lambda>_. 1) as) bs"
      using asbs bs1 by (auto simp: list_all2_conv_all_nth)
    ultimately show ?thesis by (simp add: g)
  qed
qed simp_all

lemma odometer_step:
  "list_all2 (\<lambda>y m. 1 \<le> y \<and> y \<le> m) t ms \<Longrightarrow> list_all2 (\<lambda>x m. x \<le> m) g ms \<Longrightarrow> lexLess g t \<Longrightarrow>
   \<exists>g'. odometer g ms = Some g' \<and> (g' = t \<or> lexLess g' t)"
proof (induction g ms arbitrary: t rule: odometer.induct)
  case (1 x gs m ms)
  from "1.prems"(1) obtain y ts where t: "t = y # ts" and y: "1 \<le> y" "y \<le> m"
    and ts: "list_all2 (\<lambda>y m. 1 \<le> y \<and> y \<le> m) ts ms"
    by (cases t) auto
  from "1.prems"(2) have x: "x \<le> m" and gs: "list_all2 (\<lambda>x m. x \<le> m) gs ms" by simp_all
  from "1.prems"(3) have l: "x < y \<or> (x = y \<and> lexLess gs ts)" by (simp add: t)
  have len: "length gs = length ms" "length ts = length ms"
    using gs ts by (simp_all add: list_all2_lengthD)
  show ?case
  proof (cases "odometer gs ms")
    case (Some gs')
    have b: "x = y \<longrightarrow> gs' = ts \<or> lexLess gs' ts"
    proof
      assume "x = y"
      with l have "lexLess gs ts" by simp
      from "1.IH" [OF ts gs this] Some show "gs' = ts \<or> lexLess gs' ts" by simp
    qed
    with Some l show ?thesis by (auto simp: t)
  next
    case None
    from odometer_None [OF len(1) None] have e: "gs = ms" .
    from ts have "list_all2 (\<lambda>y x. y \<le> x) ts gs" unfolding e
      by (rule list_all2_mono) simp
    then have "\<not> lexLess gs ts" by (rule lexLess_pointwise)
    with l have xy: "x < y" by blast
    with y have "x \<noteq> m" by auto
    with None have o: "odometer (x # gs) (m # ms) = Some ((x + 1) # map (\<lambda>_. 1) gs)" by simp
    from xy have x1: "x + 1 \<le> y" by (simp add: inc_le)
    from ts have ge1: "\<forall>y \<in> set ts. 1 \<le> y" by (auto simp: list_all2_conv_all_nth in_set_conv_nth)
    from ones_lexLess [OF ge1, of gs] len
    have "map (\<lambda>_. 1) gs = ts \<or> lexLess (map (\<lambda>_. 1) gs) ts" by simp
    with x1 have "(x + 1) # map (\<lambda>_. 1) gs = t \<or> lexLess ((x + 1) # map (\<lambda>_. 1) gs) t"
      by (auto simp: t less_le)
    with o show ?thesis by simp
  qed
qed simp_all

lemma inRange_maxes:
  "list_all2 (\<lambda>y m. (1 :: u32) \<le> y \<and> y \<le> m) t ms \<Longrightarrow>
   (\<forall>m \<in> set ms. 1 \<le> m) \<and> (\<forall>y \<in> set t. 1 \<le> y) \<and> length t = length ms"
  by (induction t ms rule: list_all2_induct) (auto intro: order_trans)

lemma groundingsFrom_complete:
  "list_all2 (\<lambda>y m. 1 \<le> y \<and> y \<le> m) t ms \<Longrightarrow> list_all2 (\<lambda>x m. x \<le> m) g ms \<Longrightarrow> lexLess g t \<Longrightarrow>
   t \<in> set (groundingsFrom ms g)"
proof (induction ms g rule: groundingsFrom.induct)
  case (1 ms g)
  note t = "1.prems"(1)
  from inRange_maxes [OF t] have m1: "\<forall>m \<in> set ms. 1 \<le> m" by (rule conjunct1)
  from odometer_step [OF "1.prems"] obtain g' where
    o: "odometer g ms = Some g'" and d: "g' = t \<or> lexLess g' t" by blast
  from odometer_bounded [OF o "1.prems"(2) m1] have b: "list_all2 (\<lambda>x m. x \<le> m) g' ms" .
  from d show ?case
  proof
    assume "g' = t"
    with o show ?thesis by (subst groundingsFrom.simps) (simp del: groundingsFrom.simps)
  next
    assume "lexLess g' t"
    from "1.IH" [OF o t b this] o show ?thesis by (subst groundingsFrom.simps) (simp del: groundingsFrom.simps)
  qed
qed

lemma initialGrounding_lexLess:
  "\<forall>y \<in> set t. 1 \<le> y \<Longrightarrow> t \<noteq> [] \<Longrightarrow> lexLess (initialGrounding (length t)) t"
proof (induction t)
  case Nil
  then show ?case by simp
next
  case (Cons y ts)
  show ?case
  proof (cases ts)
    case Nil
    with Cons.prems show ?thesis by (simp add: initialGrounding_def word_less_nat_alt word_le_nat_alt)
  next
    case (Cons z zs)
    have "initialGrounding (length (y # ts)) = 1 # initialGrounding (length ts)"
      by (simp add: initialGrounding_def Cons)
    moreover from Cons.IH Cons.prems Cons have "lexLess (initialGrounding (length ts)) ts" by simp
    ultimately show ?thesis using Cons.prems by (auto simp: less_le)
  qed
qed

lemma initialGrounding_bounded:
  "\<forall>m \<in> set ms. 1 \<le> m \<Longrightarrow> list_all2 (\<lambda>x m. x \<le> m) (initialGrounding (length ms)) ms"
  by (auto simp: initialGrounding_def list_all2_conv_all_nth nth_list_update)

lemma groundings_complete:
  assumes "list_all2 (\<lambda>y m. 1 \<le> y \<and> y \<le> m) t ms" and "t \<noteq> []"
  shows "t \<in> set (groundingsFrom ms (initialGrounding (length ms)))"
proof -
  from inRange_maxes [OF assms(1)] have m1: "\<forall>m \<in> set ms. 1 \<le> m" and t1: "\<forall>y \<in> set t. 1 \<le> y"
    and len: "length t = length ms"
    by blast+
  from initialGrounding_lexLess [OF t1 assms(2)] have "lexLess (initialGrounding (length ms)) t"
    by (simp add: len)
  from groundingsFrom_complete [OF assms(1) initialGrounding_bounded [OF m1] this]
  show ?thesis .
qed

lemma odometer_inRange:
  "odometer g ms = Some g' \<Longrightarrow> list_all2 (\<lambda>y m. 1 \<le> y \<and> y \<le> m) g ms \<Longrightarrow>
   list_all2 (\<lambda>y m. 1 \<le> y \<and> y \<le> m) g' ms"
proof (induction g ms arbitrary: g' rule: odometer.induct)
  case (1 a as b bs)
  from "1.prems"(2) have ab: "1 \<le> a" "a \<le> b" and asbs: "list_all2 (\<lambda>y m. 1 \<le> y \<and> y \<le> m) as bs"
    by simp_all
  show ?case
  proof (cases "odometer as bs")
    case (Some as')
    with "1.prems"(1) have "g' = a # as'" by simp
    with "1.IH" [OF Some asbs] ab show ?thesis by simp
  next
    case None
    with "1.prems"(1) have ne: "a \<noteq> b" and g: "g' = (a + 1) # map (\<lambda>_. 1) as"
      by (auto split: if_splits)
    from ab ne have lt: "a < b" by simp
    then have "a + 1 \<le> b" by (simp add: inc_le)
    moreover from lt have "a \<le> a + 1" by (rule word_inc_bounds(1))
    with ab(1) have "1 \<le> a + 1" by (rule order_trans)
    moreover from inRange_maxes [OF asbs] have "\<forall>m \<in> set bs. 1 \<le> m" "length as = length bs" by blast+
    then have "list_all2 (\<lambda>y m. 1 \<le> y \<and> y \<le> m) (map (\<lambda>_. 1) as) bs"
      by (auto simp: list_all2_conv_all_nth)
    ultimately show ?thesis by (simp add: g)
  qed
qed simp_all

lemma groundingsFrom_inRange:
  "list_all2 (\<lambda>y m. 1 \<le> y \<and> y \<le> m) g ms \<Longrightarrow> h \<in> set (groundingsFrom ms g) \<Longrightarrow>
   list_all2 (\<lambda>y m. 1 \<le> y \<and> y \<le> m) h ms"
proof (induction ms g rule: groundingsFrom.induct)
  case (1 ms g)
  show ?case
  proof (cases "odometer g ms")
    case None
    with "1.prems"(2) show ?thesis by (subst (asm) groundingsFrom.simps) (simp del: groundingsFrom.simps)
  next
    case (Some g')
    from odometer_inRange [OF Some "1.prems"(1)] have r: "list_all2 (\<lambda>y m. 1 \<le> y \<and> y \<le> m) g' ms" .
    from "1.prems"(2) Some have "h = g' \<or> h \<in> set (groundingsFrom ms g')"
      by (subst (asm) groundingsFrom.simps) (simp del: groundingsFrom.simps)
    then show ?thesis
    proof
      assume "h = g'"
      with r show ?thesis by simp
    next
      assume "h \<in> set (groundingsFrom ms g')"
      from "1.IH" [OF Some r this] show ?thesis .
    qed
  qed
qed

lemma odometer_lexLess:
  "odometer g ms = Some g' \<Longrightarrow> list_all2 (\<lambda>x m. x \<le> m) g ms \<Longrightarrow> lexLess g g'"
proof (induction g ms arbitrary: g' rule: odometer.induct)
  case (1 a as b bs)
  from "1.prems"(2) have ab: "a \<le> b" and asbs: "list_all2 (\<lambda>x m. x \<le> m) as bs" by simp_all
  show ?case
  proof (cases "odometer as bs")
    case (Some as')
    with "1.prems"(1) have "g' = a # as'" by simp
    with "1.IH" [OF Some asbs] show ?thesis by simp
  next
    case None
    with "1.prems"(1) have ne: "a \<noteq> b" and g: "g' = (a + 1) # map (\<lambda>_. 1) as"
      by (auto split: if_splits)
    from ab ne have "a < b" by simp
    then have "a < a + 1" by (rule word_inc_bounds(3))
    then show ?thesis by (simp add: g)
  qed
qed simp_all

lemma lexLess_trans: "lexLess a b \<Longrightarrow> lexLess b c \<Longrightarrow> lexLess a c"
proof (induction a b arbitrary: c rule: lexLess.induct)
  case (1 x xs y ys)
  then show ?case by (cases c) (auto intro: less_trans)
qed simp_all

lemma lexLess_irrefl: "\<not> lexLess a a"
  by (induction a) auto

lemma groundingsFrom_above:
  "list_all2 (\<lambda>x m. x \<le> m) g ms \<Longrightarrow> \<forall>m \<in> set ms. 1 \<le> m \<Longrightarrow>
   (\<forall>h \<in> set (groundingsFrom ms g). lexLess g h) \<and> distinct (groundingsFrom ms g)"
proof (induction ms g rule: groundingsFrom.induct)
  case (1 ms g)
  show ?case
  proof (cases "odometer g ms")
    case None
    then have "groundingsFrom ms g = []"
      by (subst groundingsFrom.simps) (simp del: groundingsFrom.simps)
    then show ?thesis by (simp del: groundingsFrom.simps)
  next
    case (Some g')
    from odometer_bounded [OF Some "1.prems"] have b: "list_all2 (\<lambda>x m. x \<le> m) g' ms" .
    from odometer_lexLess [OF Some "1.prems"(1)] have l: "lexLess g g'" .
    from "1.IH" [OF Some b "1.prems"(2)] have a: "\<forall>h \<in> set (groundingsFrom ms g'). lexLess g' h"
      and d: "distinct (groundingsFrom ms g')" by blast+
    have e: "groundingsFrom ms g = g' # groundingsFrom ms g'"
      using Some by (subst groundingsFrom.simps) (simp del: groundingsFrom.simps)
    from a lexLess_irrefl have "g' \<notin> set (groundingsFrom ms g')" by blast
    with a l d show ?thesis unfolding e by (auto intro: lexLess_trans simp del: groundingsFrom.simps)
  qed
qed

lemma groundings_exact:
  assumes m1: "\<forall>m \<in> set ms. 1 \<le> m" and ne: "ms \<noteq> []"
  shows "set (groundingsFrom ms (initialGrounding (length ms)))
           = {g. list_all2 (\<lambda>y m. 1 \<le> y \<and> y \<le> m) g ms}"
    and "distinct (groundingsFrom ms (initialGrounding (length ms)))"
proof -
  let ?g0 = "initialGrounding (length ms)"
  have b0: "list_all2 (\<lambda>x m. x \<le> m) ?g0 ms" using m1 by (rule initialGrounding_bounded)
  from groundingsFrom_above [OF b0 m1]
  show "distinct (groundingsFrom ms ?g0)" by (rule conjunct2)
  show "set (groundingsFrom ms ?g0) = {g. list_all2 (\<lambda>y m. 1 \<le> y \<and> y \<le> m) g ms}"
  proof (intro set_eqI iffI)
    fix g assume "g \<in> {g. list_all2 (\<lambda>y m. 1 \<le> y \<and> y \<le> m) g ms}"
    then have r: "list_all2 (\<lambda>y m. 1 \<le> y \<and> y \<le> m) g ms" by simp
    with ne have "g \<noteq> []" by auto
    from groundings_complete [OF r this] show "g \<in> set (groundingsFrom ms ?g0)" .
  next
    fix g assume g: "g \<in> set (groundingsFrom ms ?g0)"
    let ?ones = "replicate (length ms) (1 :: u32)"
    have r1: "list_all2 (\<lambda>y m. 1 \<le> y \<and> y \<le> m) ?ones ms"
      using m1 by (auto simp: list_all2_conv_all_nth)
    have o: "odometer ?g0 ms = Some ?ones"
      using m1 ne
    proof (induction ms)
      case Nil
      then show ?case by simp
    next
      case (Cons m ms)
      show ?case
      proof (cases ms)
        case Nil
        with Cons.prems show ?thesis by (auto simp: initialGrounding_def)
      next
        case (Cons m' ms')
        have "initialGrounding (length (m # ms)) = 1 # initialGrounding (length ms)"
          by (simp add: initialGrounding_def Cons)
        moreover have "odometer (initialGrounding (length ms)) ms = Some (replicate (length ms) 1)"
          using Cons.IH Cons.prems Cons by simp
        ultimately show ?thesis by simp
      qed
    qed
    from g o have "g = ?ones \<or> g \<in> set (groundingsFrom ms ?ones)"
      by (subst (asm) groundingsFrom.simps) (simp del: groundingsFrom.simps)
    then show "g \<in> {g. list_all2 (\<lambda>y m. 1 \<le> y \<and> y \<le> m) g ms}"
      using r1 groundingsFrom_inRange [OF r1] by (auto simp del: groundingsFrom.simps)
  qed
qed

section \<open>Two-variable equalities in instances\<close>

lemma groundLiterals_skip:
  "isPositive = (grounding ! x = grounding ! y) \<Longrightarrow>
   groundLiterals st grounding (pre @ TwoVarEquality isPositive x y # post) = None"
proof (induction pre)
  case Nil
  then show ?case by simp
next
  case (Cons a pre)
  then show ?case by (cases a) (auto simp: Let_def)
qed

lemma groundLiterals_omit:
  "isPositive \<noteq> (grounding ! x = grounding ! y) \<Longrightarrow>
   groundLiterals st grounding (pre @ TwoVarEquality isPositive x y # post)
     = groundLiterals st grounding (pre @ post)"
proof (induction pre)
  case Nil
  then show ?case by auto
next
  case (Cons a pre)
  then show ?case by (cases a) (auto simp: Let_def)
qed

lemma clauseInstances_groundings:
  assumes vs: "clauseVariableSorts c = Some varSorts" and v: "0 < varCnt c"
    and m1: "\<forall>m \<in> set (instanceMaxVarSize st c varSorts). 1 \<le> m"
  shows "\<exists>gs. distinct gs \<and> set gs = {g. groundingWithin st c varSorts g}
            \<and> clauseInstances st c = List.map_filter (groundInstance st c varSorts) gs"
proof -
  let ?ms = "instanceMaxVarSize st c varSorts"
  let ?gs = "groundingsFrom ?ms (initialGrounding (length ?ms))"
  have len: "length ?ms = varCnt c" by (simp add: instanceMaxVarSize_def)
  with v have ne: "?ms \<noteq> []" by auto
  have "clauseInstances st c = List.map_filter (groundInstance st c varSorts) ?gs"
    unfolding len by (simp add: clauseInstances_def vs instanceMaxVarSize_def Let_def del: groundingsFrom.simps)
  moreover have "set ?gs = {g. groundingWithin st c varSorts g}"
    unfolding groundingWithin_def by (rule groundings_exact(1) [OF m1 ne])
  moreover have "distinct ?gs" by (rule groundings_exact(2) [OF m1 ne])
  ultimately show ?thesis by blast
qed

text \<open>
  C3. For a clause that contains the two-variable equality \<open>x \<simeq> y\<close> with polarity
  \<open>isPositive\<close> at any position, and for any grounding: if the literal is positive and
  both variables are grounded with the same value, or negative and grounded with
  different values, the emitter abandons the instance (\<open>groundInstance\<close> is \<open>None\<close>); in the
  two other cases the instance is exactly the instance of the clause without this literal.
  For a non-ground clause of the problem, \<^verbatim>\<open>addNewInstances\<close> visits every grounding within
  the bounds exactly once and hands to \<^verbatim>\<open>addSATClause\<close> the instances of the visited
  groundings and nothing else for the clause: an abandoned grounding contributes no SAT
  clause, and the instance of any other grounding is among the clauses emitted.
\<close>

theorem twoVarEquality_instance_rule:
  assumes "literals c = pre @ TwoVarEquality isPositive x y # post"
  shows "(isPositive \<and> grounding ! x = grounding ! y \<longrightarrow>
            groundInstance st c varSorts grounding = None)
       \<and> (isPositive \<and> grounding ! x \<noteq> grounding ! y \<longrightarrow>
            groundInstance st c varSorts grounding
              = groundInstance st (c\<lparr>literals := pre @ post\<rparr>) varSorts grounding)
       \<and> (\<not> isPositive \<and> grounding ! x \<noteq> grounding ! y \<longrightarrow>
            groundInstance st c varSorts grounding = None)
       \<and> (\<not> isPositive \<and> grounding ! x = grounding ! y \<longrightarrow>
            groundInstance st c varSorts grounding
              = groundInstance st (c\<lparr>literals := pre @ post\<rparr>) varSorts grounding)
       \<and> (c \<in> set (clauses st) \<and> clauseVariableSorts c = Some varSorts \<and> 0 < varCnt c
            \<and> groundingWithin st c varSorts grounding \<longrightarrow>
            (\<exists>gs. distinct gs \<and> set gs = {g. groundingWithin st c varSorts g}
                 \<and> clauseInstances st c = List.map_filter (groundInstance st c varSorts) gs)
            \<and> set (clauseInstances st c) \<subseteq> set (addNewInstances st)
            \<and> (\<forall>cl. groundInstance st c varSorts grounding = Some cl \<longrightarrow>
                   cl \<in> set (addNewInstances st)))"
proof -
  have four: "(isPositive \<and> grounding ! x = grounding ! y \<longrightarrow>
            groundInstance st c varSorts grounding = None)
       \<and> (isPositive \<and> grounding ! x \<noteq> grounding ! y \<longrightarrow>
            groundInstance st c varSorts grounding
              = groundInstance st (c\<lparr>literals := pre @ post\<rparr>) varSorts grounding)
       \<and> (\<not> isPositive \<and> grounding ! x \<noteq> grounding ! y \<longrightarrow>
            groundInstance st c varSorts grounding = None)
       \<and> (\<not> isPositive \<and> grounding ! x = grounding ! y \<longrightarrow>
            groundInstance st c varSorts grounding
              = groundInstance st (c\<lparr>literals := pre @ post\<rparr>) varSorts grounding)"
    by (simp add: groundInstance_def assms groundLiterals_skip groundLiterals_omit)
  have emit: "(\<exists>gs. distinct gs \<and> set gs = {g. groundingWithin st c varSorts g}
                 \<and> clauseInstances st c = List.map_filter (groundInstance st c varSorts) gs)
            \<and> set (clauseInstances st c) \<subseteq> set (addNewInstances st)
            \<and> (\<forall>cl. groundInstance st c varSorts grounding = Some cl \<longrightarrow>
                   cl \<in> set (addNewInstances st))"
    if h: "c \<in> set (clauses st) \<and> clauseVariableSorts c = Some varSorts \<and> 0 < varCnt c
            \<and> groundingWithin st c varSorts grounding"
  proof -
    from h have cin: "c \<in> set (clauses st)" and vs: "clauseVariableSorts c = Some varSorts"
      and v: "0 < varCnt c" and g: "groundingWithin st c varSorts grounding" by blast+
    from inRange_maxes [OF g [unfolded groundingWithin_def]]
    have m1: "\<forall>m \<in> set (instanceMaxVarSize st c varSorts). 1 \<le> m" by (rule conjunct1)
    from clauseInstances_groundings [OF vs v m1] obtain gs where
      gs: "distinct gs" "set gs = {g. groundingWithin st c varSorts g}"
        "clauseInstances st c = List.map_filter (groundInstance st c varSorts) gs" by blast
    from cin have sub: "set (clauseInstances st c) \<subseteq> set (addNewInstances st)"
      by (auto simp: addNewInstances_def)
    have "cl \<in> set (addNewInstances st)" if "groundInstance st c varSorts grounding = Some cl" for cl
    proof -
      from g gs(2) have "grounding \<in> set gs" by simp
      with that have "cl \<in> set (clauseInstances st c)"
        unfolding gs(3) map_filter_def by (auto intro!: image_eqI [where x = grounding])
      with sub show ?thesis by blast
    qed
    with gs sub show ?thesis by blast
  qed
  from four emit show ?thesis by blast
qed

theorem twoVarEquality_instance_rule_witness:
  "groundInstance (exampleFMB True) (exampleClause True) [0, 0] [1, 1] = None
   \<and> groundInstance (exampleFMB True) (exampleClause True) [0, 0] [1, 2]
       = Some [SATLiteral 7 False, SATLiteral 3 True, SATLiteral 5 False]
   \<and> groundInstance (exampleFMB True) (exampleClause False) [0, 0] [1, 2] = None
   \<and> groundInstance (exampleFMB True) (exampleClause False) [0, 0] [1, 1]
       = Some [SATLiteral 1 True, SATLiteral 5 False]
   \<and> exampleClause True \<in> set (clauses (exampleFMB True))
   \<and> groundingWithin (exampleFMB True) (exampleClause True) [0, 0] [1, 2]
   \<and> [SATLiteral 7 False, SATLiteral 3 True, SATLiteral 5 False]
        \<in> set (addNewInstances (exampleFMB True))"
proof -
  let ?pre = "[FunctionEquality True 0 [0] 1]" and ?post = "[PredicateLiteral False 1 [0]]"
  have rest:
    "groundInstance (exampleFMB True) ((exampleClause b)\<lparr>literals := ?pre @ ?post\<rparr>) [0, 0] [1, 2]
       = Some [SATLiteral 7 False, SATLiteral 3 True, SATLiteral 5 False]"
    "groundInstance (exampleFMB True) ((exampleClause b)\<lparr>literals := ?pre @ ?post\<rparr>) [0, 0] [1, 1]
       = Some [SATLiteral 1 True, SATLiteral 5 False]" for b
    by (simp_all add: example_defs literal_defs instance_defs)
  have lits: "literals (exampleClause b) = ?pre @ TwoVarEquality b 0 1 # ?post" for b
    by (simp add: exampleClause_def)
  note ruleT = twoVarEquality_instance_rule [OF lits [of True], where st = "exampleFMB True" and varSorts = "[0, 0]"]
  note ruleF = twoVarEquality_instance_rule [OF lits [of False], where st = "exampleFMB True" and varSorts = "[0, 0]"]
  from ruleT [where grounding = "[1, 1]"]
  have 1: "groundInstance (exampleFMB True) (exampleClause True) [0, 0] [1, 1] = None"
    by simp
  from ruleT [where grounding = "[1, 2]"]
  have 2: "groundInstance (exampleFMB True) (exampleClause True) [0, 0] [1, 2]
       = Some [SATLiteral 7 False, SATLiteral 3 True, SATLiteral 5 False]"
    using rest(1) [of True] by simp
  from ruleF [where grounding = "[1, 2]"]
  have 3: "groundInstance (exampleFMB True) (exampleClause False) [0, 0] [1, 2] = None"
    by simp
  from ruleF [where grounding = "[1, 1]"]
  have 4: "groundInstance (exampleFMB True) (exampleClause False) [0, 0] [1, 1]
       = Some [SATLiteral 1 True, SATLiteral 5 False]"
    using rest(2) [of False] by simp
  have 5: "exampleClause True \<in> set (clauses (exampleFMB True))" by (simp add: exampleFMB_def)
  have vs: "clauseVariableSorts (exampleClause True) = Some [0, 0]" "0 < varCnt (exampleClause True)"
    by (simp_all add: exampleClause_def)
  have 6: "groundingWithin (exampleFMB True) (exampleClause True) [0, 0] [1, 2]" by code_simp
  from ruleT [where grounding = "[1, 2]"] 5 vs 6
  have "\<forall>cl. groundInstance (exampleFMB True) (exampleClause True) [0, 0] [1, 2] = Some cl \<longrightarrow>
                   cl \<in> set (addNewInstances (exampleFMB True))" by blast
  with 2 have 7: "[SATLiteral 7 False, SATLiteral 3 True, SATLiteral 5 False]
        \<in> set (addNewInstances (exampleFMB True))" by blast
  from 1 2 3 4 5 6 7 show ?thesis by blast
qed

section \<open>Markers of totality clauses in CONTOUR mode\<close>

lemma forUpTo_set: "forUpTo a b = Some xs \<Longrightarrow> set xs = {i. a \<le> i \<and> i \<le> b}"
proof -
  assume h: "forUpTo a b = Some xs"
  then have xs: "xs = map of_nat [unat a..<Suc (unat b)]"
    by (auto simp: forUpTo_def split: if_splits)
  show ?thesis
  proof (intro set_eqI iffI)
    fix i assume "i \<in> set xs"
    then obtain k where k: "unat a \<le> k" "k \<le> unat b" "i = of_nat k"
      by (auto simp: xs)
    have "k < 2 ^ 32" using k(2) unsigned_less [of b, where 'a = nat] by simp
    then have "unat i = k" by (simp add: k(3) unat_of_nat)
    with k show "i \<in> {i. a \<le> i \<and> i \<le> b}" by (simp add: word_le_nat_alt)
  next
    fix i assume "i \<in> {i. a \<le> i \<and> i \<le> b}"
    then have "unat a \<le> unat i" "unat i \<le> unat b" by (simp_all add: word_le_nat_alt)
    then have "unat i \<in> set [unat a..<Suc (unat b)]" by auto
    moreover have "i = of_nat (unat i)" by simp
    ultimately show "i \<in> set xs" unfolding xs set_map by (rule rev_image_eqI)
  qed
qed

text \<open>
  C6 (as the code has it). In CONTOUR mode, the totality clauses emitted for a function
  \<open>f\<close> with result in distinct sort \<open>s\<close> and an argument grounding are exactly the clauses
  \<open>f(x) = 1 \<or> \<dots> \<or> f(x) = i \<or> marker[s][m]\<close> for the candidate cardinalities
  \<open>i \<le> maxRet\<close> (all of them from 1 on, or only \<open>maxRet\<close> for a monotonic sort), where
  \<open>m = size[s] - 1\<close> for the top cardinality \<open>i = maxRet\<close> and \<open>m = i - 1\<close> below it. Below
  the top cardinality this is the index \<open>min(i - 1, size[s] - 1)\<close> of the specification.
\<close>

theorem totality_marker_contour:
  assumes "xmass st" and "totalityVersions st f grounding = Some cls"
    and "s = parents (sortedSignature st) ! resultSort st f"
  shows "set cls =
           (\<lambda>i. resultValues st f grounding i @
                 [SATLiteral (marker_offsets st ! s +
                    (if i = maxRet st f then distinctSortSizes st ! s - 1 else i - 1)) True])
           ` {i. (if monotonicSorts (sortedSignature st) ! s then maxRet st f else 1) \<le> i
                 \<and> i \<le> maxRet st f}
         \<and> (\<forall>i. 1 \<le> i \<and> i < maxRet st f \<and> maxRet st f \<le> distinctSortSizes st ! s
               \<longrightarrow> (if i = maxRet st f then distinctSortSizes st ! s - 1 else i - 1)
                   = specMarkerIdx st s i)"
proof
  have "totalityVersions st f grounding =
          map_option (map (totalityClause st f grounding s (maxRet st f)))
            (forUpTo (if monotonicSorts (sortedSignature st) ! s then maxRet st f else 1)
               (maxRet st f))"
    using assms(1,3) by (simp add: totalityVersions_def Let_def maxRet_def resultSort_def)
  with assms(2) obtain xs where
    xs: "forUpTo (if monotonicSorts (sortedSignature st) ! s then maxRet st f else 1)
           (maxRet st f) = Some xs"
    and cls: "cls = map (totalityClause st f grounding s (maxRet st f)) xs"
    by auto
  have eq: "totalityClause st f grounding s (maxRet st f) =
      (\<lambda>i. resultValues st f grounding i @
                 [SATLiteral (marker_offsets st ! s +
                    (if i = maxRet st f then distinctSortSizes st ! s - 1 else i - 1)) True])"
    by (rule ext) (simp add: totalityClause_def resultValues_def totalityMarkerIdx_def assms(1))
  show "set cls =
           (\<lambda>i. resultValues st f grounding i @
                 [SATLiteral (marker_offsets st ! s +
                    (if i = maxRet st f then distinctSortSizes st ! s - 1 else i - 1)) True])
           ` {i. (if monotonicSorts (sortedSignature st) ! s then maxRet st f else 1) \<le> i
                 \<and> i \<le> maxRet st f}"
    unfolding cls set_map forUpTo_set [OF xs] eq ..
  show "\<forall>i. 1 \<le> i \<and> i < maxRet st f \<and> maxRet st f \<le> distinctSortSizes st ! s
           \<longrightarrow> (if i = maxRet st f then distinctSortSizes st ! s - 1 else i - 1)
               = specMarkerIdx st s i"
  proof (intro allI impI)
    fix i assume h: "1 \<le> i \<and> i < maxRet st f \<and> maxRet st f \<le> distinctSortSizes st ! s"
    then have le: "i \<le> distinctSortSizes st ! s" by auto
    with h have one: "1 \<le> distinctSortSizes st ! s" by auto
    have "unat (i - 1) = unat i - unat (1::u32)" using h by (intro unat_sub) simp
    moreover have "unat (distinctSortSizes st ! s - 1)
        = unat (distinctSortSizes st ! s) - unat (1::u32)"
      using one by (rule unat_sub)
    moreover have "unat i \<le> unat (distinctSortSizes st ! s)"
      using le by (simp add: word_le_nat_alt)
    ultimately have "i - 1 \<le> distinctSortSizes st ! s - 1"
      by (simp add: word_le_nat_alt)
    moreover have "i \<noteq> maxRet st f" using h by auto
    ultimately show "(if i = maxRet st f then distinctSortSizes st ! s - 1 else i - 1)
               = specMarkerIdx st s i"
      by (simp add: specMarkerIdx_def min_def)
  qed
qed

lemmas totality_defs = totalityVersions_def totalityClause_def totalityMarkerIdx_def
  forUpTo_def functionArity_def maxSizeOfSort_def

theorem totality_marker_contour_witness:
  "xmass (exampleFMB True)
   \<and> totalityVersions (exampleFMB True) 0 [1]
       = Some [[SATLiteral 1 True, SATLiteral 7 True],
               [SATLiteral 1 True, SATLiteral 3 True, SATLiteral 8 True]]
   \<and> set [[SATLiteral 1 True, SATLiteral 7 True],
           [SATLiteral 1 True, SATLiteral 3 True, SATLiteral 8 True]]
       = (\<lambda>i. resultValues (exampleFMB True) 0 [1] i @
               [SATLiteral (7 + (if i = 2 then 2 - 1 else i - 1)) True]) ` {i. 1 \<le> i \<and> i \<le> 2}
   \<and> specMarkerIdx (exampleFMB True) 0 1 = 0"
proof -
  have x: "xmass (exampleFMB True)" by (simp add: exampleFMB_def)
  have v: "totalityVersions (exampleFMB True) 0 [1]
       = Some [[SATLiteral 1 True, SATLiteral 7 True],
               [SATLiteral 1 True, SATLiteral 3 True, SATLiteral 8 True]]"
    by (simp add: example_defs literal_defs totality_defs upt_rec)
  have s: "0 = parents (sortedSignature (exampleFMB True)) ! resultSort (exampleFMB True) 0"
    by (simp add: example_defs resultSort_def functionArity_def)
  have m: "maxRet (exampleFMB True) 0 = 2" "monotonicSorts (sortedSignature (exampleFMB True)) ! 0 = False"
    "marker_offsets (exampleFMB True) ! 0 = 7" "distinctSortSizes (exampleFMB True) ! 0 = 2"
    by (simp_all add: example_defs maxRet_def resultSort_def functionArity_def maxSizeOfSort_def)
  note t = totality_marker_contour [OF x v s, unfolded m if_False]
  have "(1::u32) \<le> 1 \<and> (1::u32) < 2 \<and> (2::u32) \<le> 2" by simp
  from t [THEN conjunct2, rule_format, OF this]
  have "specMarkerIdx (exampleFMB True) 0 1 = 0" by simp
  with t [THEN conjunct1] x v show ?thesis by blast
qed

text \<open>
  The index of the specification is not the one of the code at the top cardinality of a
  sort whose bound is below its size: with bound 1 and size 2, the only totality clause of
  the constant is \<open>c = 1 \<or> marker[s][1]\<close> (variable 4), while \<open>min(i - 1, size[s] - 1)\<close>
  is 0 (variable 3).
\<close>

theorem totality_marker_min_counterexample:
  "addNewTotalityDefs boundedFMB
     = Some [[SATLiteral 3 True, SATLiteral 4 False], [SATLiteral 1 True, SATLiteral 4 True]]
   \<and> maxRet boundedFMB 0 = 1
   \<and> SATLiteral (marker_offsets boundedFMB ! 0 + specMarkerIdx boundedFMB 0 1) True
       = SATLiteral 3 True
   \<and> SATLiteral 3 True \<notin> set [SATLiteral 1 True, SATLiteral 4 True]"
  by (simp add: boundedFMB_def example_defs addNewTotalityDefs_def staircase_def totalityDefs_def
      functionCount_def literal_defs totality_defs specMarkerIdx_def maxRet_def resultSort_def
      upt_rec)

section \<open>Results of the driver\<close>

text \<open>
  C10. For an appropriate problem without units \<^verbatim>\<open>runImpl\<close> returns \<^verbatim>\<open>SATISFIABLE\<close> at
  once, whatever the fuel: the state it leaves is the state it was given, so no clause has
  been produced, no solver allocated and the solver never called.
\<close>

theorem runImpl_no_units:
  "isAppropriate st \<Longrightarrow> units st = [] \<Longrightarrow>
   runImpl fuel ext st = Some (MainLoopResult SATISFIABLE None, st)"
  by (simp add: runImpl_def)

theorem runImpl_no_units_witness:
  "isAppropriate ((exampleFMB True)\<lparr>units := []\<rparr>) \<and> units ((exampleFMB True)\<lparr>units := []\<rparr>) = []
   \<and> runImpl 0 (exampleExternals (SolverUNSATISFIABLE []) True) ((exampleFMB True)\<lparr>units := []\<rparr>)
       = Some (MainLoopResult SATISFIABLE None, (exampleFMB True)\<lparr>units := []\<rparr>)"
proof -
  have a: "isAppropriate ((exampleFMB True)\<lparr>units := []\<rparr>)" by (simp add: exampleFMB_def)
  have u: "units ((exampleFMB True)\<lparr>units := []\<rparr>) = []" by simp
  from runImpl_no_units [OF a u] a u show ?thesis by blast
qed

lemma fold_growthCandidate_maxed:
  "list_all (\<lambda>lit. distinctSortSizes st ! ws st (var lit) = distinctSortMaxs st ! ws st (var lit)) failed
   \<Longrightarrow> fold (growthCandidate ws st) failed acc = acc"
  by (induction failed arbitrary: acc) (auto simp: growthCandidate_def Let_def split: prod.splits)

lemma tryIncrements_length:
  "tryIncrements st sortMaxes is newSortSizes e = (b, sizes', e') \<Longrightarrow>
   length sizes' = length newSortSizes"
proof (induction "is" arbitrary: newSortSizes e)
  case Nil
  then show ?case by simp
next
  case (Cons i rest)
  show ?case
  proof (cases "testCandidate st sortMaxes i (newSortSizes[i := newSortSizes ! i + 1]) e")
    case (Pair ok e1)
    show ?thesis
    proof (cases ok)
      case True
      with Pair Cons.prems show ?thesis by (auto simp: Let_def)
    next
      case False
      with Pair Cons.prems have
        "tryIncrements st sortMaxes rest
           ((newSortSizes[i := newSortSizes ! i + 1])
              [i := (newSortSizes[i := newSortSizes ! i + 1]) ! i - 1]) e1 = (b, sizes', e')"
        by (simp add: Let_def)
      from Cons.IH [OF this] show ?thesis by simp
    qed
  qed
qed

lemma increaseModelSizes_length:
  "increaseModelSizes fuel st newSortSizes sortMaxes e = Some (b, sizes', e') \<Longrightarrow>
   length sizes' = length newSortSizes"
proof (induction fuel arbitrary: newSortSizes e)
  case 0
  then show ?case by simp
next
  case (Suc fuel)
  show ?case
  proof (cases "constraints_generators e = []")
    case True
    with Suc.prems show ?thesis by simp
  next
    case False
    let ?copied = "map (\<lambda>i. snd (vals (heapTop (constraints_generators e)) ! i))
                     [0..<length newSortSizes]"
    obtain ok s1 e1 where t: "tryIncrements st sortMaxes [0..<length newSortSizes] ?copied e = (ok, s1, e1)"
      by (cases "tryIncrements st sortMaxes [0..<length newSortSizes] ?copied e") auto
    from tryIncrements_length [OF t] have l: "length s1 = length newSortSizes" by simp
    show ?thesis
    proof (cases ok)
      case True
      with Suc.prems False t l show ?thesis by (simp add: Let_def)
    next
      case no: False
      with Suc.prems False t have
        "increaseModelSizes fuel st s1 sortMaxes (popGenerator e1) = Some (b, sizes', e')"
        by (simp add: Let_def)
      from Suc.IH [OF this] l show ?thesis by simp
    qed
  qed
qed

lemma onUnsat_exhausted:
  assumes "enumeratorExhausted fuel ext st w failed"
  shows "\<exists>st'. onUnsat fuel ext st w failed
           = Some (Inl (if strategyComplete ext st then modelNotFound
                        else MainLoopResult REFUTATION_NOT_FOUND None, st'))"
proof (cases "xmass st")
  case True
  with assms have "fold (growthCandidate (which_sort ext) (st\<lparr>alternator := alternator st + 1\<rparr>)) failed
      (- 1, - 1) = (- 1, - 1)"
    by (intro fold_growthCandidate_maxed) (simp add: enumeratorExhausted_def)
  with True show ?thesis
    by (auto simp: onUnsat_def Let_def strategyComplete_def)
next
  case False
  with assms obtain sizes' e2 where i:
    "increaseModelSizes fuel st (distinctSortSizes st) (distinctSortMaxs st)
       (learnNogood (nogoodOfFailed st failed) w (dsaEnumerator st)) = Some (False, sizes', e2)"
    by (auto simp: enumeratorExhausted_def split: option.splits prod.splits bool.splits)
  from increaseModelSizes_length [OF i] have "length sizes' = length (distinctSortSizes st)" .
  with False i show ?thesis
    by (auto simp: onUnsat_def Let_def strategyComplete_def)
qed

lemma encode_frame:
  "encode ext st = Some st1 \<Longrightarrow> xmass st1 = xmass st \<and> distinctSortSizes st1 = distinctSortSizes st"
  by (auto simp: encode_def split: option.splits)

text \<open>
  C9. In a round of the driver loop (no time limit, the encoding built, the solver
  answering UNSAT) in which the enumeration is exhausted, \<^verbatim>\<open>runImpl\<close> returns: \<^verbatim>\<open>REFUTATION\<close>
  with the empty clause of rule \<^verbatim>\<open>MODEL_NOT_FOUND\<close> if the strategy is complete, and
  \<^verbatim>\<open>REFUTATION_NOT_FOUND\<close> otherwise.
\<close>

theorem enumerator_exhausted_result:
  assumes "\<not> timeLimitReached ext (solverCalls st)"
    and "encode ext st = Some st1"
    and "st2 = st1\<lparr>clausesToBeAdded := shuffleArray ext (clausesToBeAdded st1),
                    solverCalls := solverCalls st1 + 1\<rparr>"
    and "solveUnderAssumptions ext (clausesToBeAdded st2) (assumptions st2) = SolverUNSATISFIABLE failed"
    and "enumeratorExhausted fuel ext (st2\<lparr>clausesToBeAdded := []\<rparr>)
           (of_nat (length (clausesToBeAdded st2))) failed"
  shows "\<exists>st'. mainLoop (Suc fuel) ext st
           = Some (if strategyComplete ext st then modelNotFound
                   else MainLoopResult REFUTATION_NOT_FOUND None, st')"
proof -
  have "strategyComplete ext (st2\<lparr>clausesToBeAdded := []\<rparr>) = strategyComplete ext st"
    using encode_frame [OF assms(2)] by (simp add: strategyComplete_def assms(3))
  with onUnsat_exhausted [OF assms(5)] obtain st' where
    "onUnsat fuel ext (st2\<lparr>clausesToBeAdded := []\<rparr>) (of_nat (length (clausesToBeAdded st2))) failed
       = Some (Inl (if strategyComplete ext st then modelNotFound
                    else MainLoopResult REFUTATION_NOT_FOUND None, st'))"
    by auto
  with assms(1-4) show ?thesis
    by (auto simp: Let_def)
qed

theorem enumerator_exhausted_result_witness:
  "(\<exists>st'. mainLoop 1 (exampleExternals (SolverUNSATISFIABLE [SATLiteral 8 False]) False) (maxedFMB True)
           = Some (modelNotFound, st'))
   \<and> (\<exists>st'. mainLoop 3 (exampleExternals (SolverUNSATISFIABLE [SATLiteral 7 True]) True) (maxedFMB False)
           = Some (modelNotFound, st'))
   \<and> (\<exists>st'. mainLoop 3 (exampleExternals (SolverUNSATISFIABLE [SATLiteral 7 True]) False) (maxedFMB False)
           = Some (MainLoopResult REFUTATION_NOT_FOUND None, st'))"
proof (intro conjI)
  let ?ext = "exampleExternals (SolverUNSATISFIABLE [SATLiteral 8 False]) False"
  let ?st = "maxedFMB True"
  let ?st1 = "the (encode ?ext ?st)"
  let ?st2 = "?st1\<lparr>clausesToBeAdded := shuffleArray ?ext (clausesToBeAdded ?st1),
                    solverCalls := solverCalls ?st1 + 1\<rparr>"
  have 1: "\<not> timeLimitReached ?ext (solverCalls ?st)" by (simp add: exampleExternals_def)
  have "encode ?ext ?st \<noteq> None" by code_simp
  then have 2: "encode ?ext ?st = Some ?st1" by simp
  have 4: "solveUnderAssumptions ?ext (clausesToBeAdded ?st2) (assumptions ?st2)
             = SolverUNSATISFIABLE [SATLiteral 8 False]"
    by (simp add: exampleExternals_def)
  have 5: "enumeratorExhausted 0 ?ext (?st2\<lparr>clausesToBeAdded := []\<rparr>)
             (of_nat (length (clausesToBeAdded ?st2))) [SATLiteral 8 False]"
    by code_simp
  have c: "strategyComplete ?ext ?st" by code_simp
  from enumerator_exhausted_result [OF 1 2 refl 4 5] c
  show "\<exists>st'. mainLoop 1 ?ext ?st = Some (modelNotFound, st')" by simp
next
  let ?ext = "exampleExternals (SolverUNSATISFIABLE [SATLiteral 7 True]) True"
  let ?st = "maxedFMB False"
  let ?st1 = "the (encode ?ext ?st)"
  let ?st2 = "?st1\<lparr>clausesToBeAdded := shuffleArray ?ext (clausesToBeAdded ?st1),
                    solverCalls := solverCalls ?st1 + 1\<rparr>"
  have 1: "\<not> timeLimitReached ?ext (solverCalls ?st)" by (simp add: exampleExternals_def)
  have "encode ?ext ?st \<noteq> None" by code_simp
  then have 2: "encode ?ext ?st = Some ?st1" by simp
  have 4: "solveUnderAssumptions ?ext (clausesToBeAdded ?st2) (assumptions ?st2)
             = SolverUNSATISFIABLE [SATLiteral 7 True]"
    by (simp add: exampleExternals_def)
  have 5: "enumeratorExhausted 2 ?ext (?st2\<lparr>clausesToBeAdded := []\<rparr>)
             (of_nat (length (clausesToBeAdded ?st2))) [SATLiteral 7 True]"
    by code_simp
  have c: "strategyComplete ?ext ?st" by code_simp
  from enumerator_exhausted_result [OF 1 2 refl 4 5] c
  show "\<exists>st'. mainLoop 3 ?ext ?st = Some (modelNotFound, st')"
    by (simp add: numeral_3_eq_3)
next
  let ?ext = "exampleExternals (SolverUNSATISFIABLE [SATLiteral 7 True]) False"
  let ?st = "maxedFMB False"
  let ?st1 = "the (encode ?ext ?st)"
  let ?st2 = "?st1\<lparr>clausesToBeAdded := shuffleArray ?ext (clausesToBeAdded ?st1),
                    solverCalls := solverCalls ?st1 + 1\<rparr>"
  have 1: "\<not> timeLimitReached ?ext (solverCalls ?st)" by (simp add: exampleExternals_def)
  have "encode ?ext ?st \<noteq> None" by code_simp
  then have 2: "encode ?ext ?st = Some ?st1" by simp
  have 4: "solveUnderAssumptions ?ext (clausesToBeAdded ?st2) (assumptions ?st2)
             = SolverUNSATISFIABLE [SATLiteral 7 True]"
    by (simp add: exampleExternals_def)
  have 5: "enumeratorExhausted 2 ?ext (?st2\<lparr>clausesToBeAdded := []\<rparr>)
             (of_nat (length (clausesToBeAdded ?st2))) [SATLiteral 7 True]"
    by code_simp
  have c: "\<not> strategyComplete ?ext ?st" by code_simp
  from enumerator_exhausted_result [OF 1 2 refl 4 5] c
  show "\<exists>st'. mainLoop 3 ?ext ?st = Some (MainLoopResult REFUTATION_NOT_FOUND None, st')"
    by (simp add: numeral_3_eq_3)
qed

section \<open>The constraint fixpoint of CONTOUR mode\<close>

text \<open>
  C7 (the code at a concrete input). With sizes \<open>[2, 1]\<close> and the strict constraint
  \<open>size[0] > size[1]\<close>, an UNSAT answer that blames sort 1 makes the driver grow sort 1 and
  go on with the sizes \<open>[2, 2]\<close>: the fixpoint loop leaves the strict constraint violated,
  because its second loop runs on the exhausted iterator of the first. Iterating the
  strict constraints themselves would raise sort 0 to 3.
\<close>

theorem strict_constraints_not_applied:
  "strict_distinct_sort_constraints twoSortFMB = [(0, 1)]
   \<and> distinctSortSizes twoSortFMB = [2, 1]
   \<and> constraintFixpoint [] [(0, 1)] [2, 2] = Some [2, 2]
   \<and> map_option (map_sum fst distinctSortSizes)
         (onUnsat 0 twoSortExternals twoSortFMB 0 [SATLiteral 6 False]) = Some (Inr [2, 2])
   \<and> fst (strictLoop [(0, 1)] [2, 2] False) = [3, 2]"
  by code_simp

section \<open>No-goods of Mode B\<close>

lemma checkConstriant_matches: "checkConstriant v G = matchesNogood G v"
  by (auto simp: checkConstriant_def matchesNogood_def list_all_iff Let_def not_less)

lemma testCandidate_accept:
  assumes "testCandidate st sortMaxes i cand e = (True, e')"
  shows "e' = e \<and> (\<forall>G \<in> set (retained e). \<not> checkConstriant cand (vals G))"
  using assms
  by (auto simp: testCandidate_def retained_def list_ex_iff split: if_splits option.splits)

lemma tryIncrements_accept:
  "tryIncrements st sortMaxes is sizes e = (True, v, e') \<Longrightarrow>
   \<forall>G \<in> set (retained e'). \<not> checkConstriant v (vals G)"
proof (induction "is" arbitrary: sizes e)
  case Nil
  then show ?case by simp
next
  case (Cons i rest)
  let ?cand = "sizes[i := sizes ! i + 1]"
  obtain ok e1 where t: "testCandidate st sortMaxes i ?cand e = (ok, e1)"
    by (cases "testCandidate st sortMaxes i ?cand e") auto
  show ?case
  proof (cases ok)
    case True
    with t have t': "testCandidate st sortMaxes i ?cand e = (True, e1)" by simp
    from True t Cons.prems have "v = ?cand" "e' = e1" by (simp_all add: Let_def)
    with testCandidate_accept [OF t'] show ?thesis by simp
  next
    case False
    with t Cons.prems have
      "tryIncrements st sortMaxes rest (?cand[i := ?cand ! i - 1]) e1 = (True, v, e')"
      by (simp add: Let_def)
    from Cons.IH [OF this] show ?thesis .
  qed
qed

lemma increaseModelSizes_accept:
  "increaseModelSizes fuel st sizes sortMaxes e = Some (True, v, e') \<Longrightarrow>
   \<forall>G \<in> set (retained e'). \<not> checkConstriant v (vals G)"
proof (induction fuel arbitrary: sizes e)
  case 0
  then show ?case by simp
next
  case (Suc fuel)
  show ?case
  proof (cases "constraints_generators e = []")
    case True
    with Suc.prems show ?thesis by simp
  next
    case False
    let ?copied = "map (\<lambda>i. snd (vals (heapTop (constraints_generators e)) ! i)) [0..<length sizes]"
    obtain ok s1 e1 where t: "tryIncrements st sortMaxes [0..<length sizes] ?copied e = (ok, s1, e1)"
      by (cases "tryIncrements st sortMaxes [0..<length sizes] ?copied e") auto
    show ?thesis
    proof (cases ok)
      case True
      with t have t': "tryIncrements st sortMaxes [0..<length sizes] ?copied e = (True, s1, e1)"
        by simp
      from True Suc.prems False t have "v = s1" "e' = e1" by (simp_all add: Let_def)
      with tryIncrements_accept [OF t'] show ?thesis by simp
    next
      case no: False
      with Suc.prems False t have
        "increaseModelSizes fuel st s1 sortMaxes (popGenerator e1) = Some (True, v, e')"
        by (simp add: Let_def)
      from Suc.IH [OF this] show ?thesis .
    qed
  qed
qed

lemma learnNogood_retained:
  "\<lparr>vals = nogood, weight = w\<rparr> \<in> set (retained (learnNogood nogood w e))"
  by (simp add: learnNogood_def retained_def heapInsert_def Let_def)

lemma unat_offset_add:
  fixes T :: u32
  assumes "unat T + k < 2 ^ 32"
  shows "unat (T + of_nat k) = unat T + k"
proof -
  have k: "k < 2 ^ 32" using assms by simp
  then have "unat (of_nat k :: u32) = k" by (simp add: unat_of_nat)
  moreover from this assms have "unat T + unat (of_nat k :: u32) < 2 ^ LENGTH(32)" by simp
  ultimately show ?thesis by (simp add: unat_add_lem [THEN iffD1])
qed

lemma nogood_step_invariant:
  fixes st :: FMB
  defines "n \<equiv> length (distinctSortSizes st)"
  defines "T \<equiv> totalityMarker_offset st" and "I \<equiv> instancesMarker_offset st"
  assumes lay: "markerLayout st"
    and fl: "\<forall>lit \<in> set failed. \<exists>s<n. var lit = T + of_nat s \<or> var lit = I + of_nat s"
    and inv: "length acc = n" "\<forall>s<n. acc ! s = (specTag st S s, distinctSortSizes st ! s)"
  shows "length (fold (\<lambda>lit nogood.
             if var lit < instancesMarker_offset st then
               (let dsort = unat (var lit - totalityMarker_offset st)
                in if monotonicSorts (sortedSignature st) ! dsort
                   then nogood[dsort := (LEQ, snd (nogood ! dsort))]
                   else nogood[dsort := (EQ, snd (nogood ! dsort))])
             else if fst (nogood ! unat (var lit - instancesMarker_offset st)) = STAR
               then nogood[unat (var lit - instancesMarker_offset st) :=
                             (GEQ, snd (nogood ! unat (var lit - instancesMarker_offset st)))]
             else nogood) failed acc) = n
     \<and> (\<forall>s<n. fold (\<lambda>lit nogood.
             if var lit < instancesMarker_offset st then
               (let dsort = unat (var lit - totalityMarker_offset st)
                in if monotonicSorts (sortedSignature st) ! dsort
                   then nogood[dsort := (LEQ, snd (nogood ! dsort))]
                   else nogood[dsort := (EQ, snd (nogood ! dsort))])
             else if fst (nogood ! unat (var lit - instancesMarker_offset st)) = STAR
               then nogood[unat (var lit - instancesMarker_offset st) :=
                             (GEQ, snd (nogood ! unat (var lit - instancesMarker_offset st)))]
             else nogood) failed acc ! s
          = (specTag st (S \<union> var ` set failed) s, distinctSortSizes st ! s))"
  using fl inv
proof (induction failed arbitrary: acc S)
  case Nil
  then show ?case by simp
next
  case (Cons lit failed)
  have I_eq: "I = T + of_nat n" and bound: "unat T + 2 * n < 2 ^ 32"
    using lay by (simp_all add: markerLayout_def n_def T_def I_def)
  have uT: "unat (T + of_nat k) = unat T + k" if "k < n" for k
    using that bound by (intro unat_offset_add) simp
  have uI0: "unat I = unat T + n"
    unfolding I_eq using bound by (intro unat_offset_add) simp
  have uI: "unat (I + of_nat k) = unat T + n + k" if "k < n" for k
  proof -
    have "I + of_nat k = T + of_nat (n + k)" by (simp add: I_eq)
    moreover have "unat (T + of_nat (n + k)) = unat T + (n + k)"
      using that bound by (intro unat_offset_add) simp
    ultimately show ?thesis by (simp only: add.assoc)
  qed
  have nat_k: "unat (of_nat k :: u32) = k" if "k < n" for k
  proof -
    have "k < 2 ^ 32" using that bound by linarith
    then show ?thesis by (simp add: unat_of_nat)
  qed
  have T_inj: "k = k'" if "T + of_nat k = T + of_nat k'" "k < n" "k' < n" for k k'
  proof -
    from that(1) have "unat (T + of_nat k) = unat (T + of_nat k')" by (rule arg_cong)
    then show ?thesis unfolding uT [OF that(2)] uT [OF that(3)] by arith
  qed
  have I_inj: "k = k'" if "I + of_nat k = I + of_nat k'" "k < n" "k' < n" for k k'
  proof -
    from that(1) have "unat (I + of_nat k) = unat (I + of_nat k')" by (rule arg_cong)
    then show ?thesis unfolding uI [OF that(2)] uI [OF that(3)] by arith
  qed
  have TI: "T + of_nat k \<noteq> I + of_nat k'" if "k < n" "k' < n" for k k'
  proof
    assume "T + of_nat k = I + of_nat k'"
    then have "unat (T + of_nat k) = unat (I + of_nat k')" by (rule arg_cong)
    then show False unfolding uT [OF that(1)] uI [OF that(2)] using that by arith
  qed
  have T_lt: "T + of_nat k < I" if "k < n" for k
    unfolding word_less_nat_alt uT [OF that] uI0 using that by arith
  have I_ge: "\<not> I + of_nat k < I" if "k < n" for k
    unfolding word_less_nat_alt uI [OF that] uI0 by arith
  from Cons.prems(1) obtain s0 where s0: "s0 < n" "var lit = T + of_nat s0 \<or> var lit = I + of_nat s0"
    by auto
  let ?step = "\<lambda>lit nogood.
             if var lit < instancesMarker_offset st then
               (let dsort = unat (var lit - totalityMarker_offset st)
                in if monotonicSorts (sortedSignature st) ! dsort
                   then nogood[dsort := (LEQ, snd (nogood ! dsort))]
                   else nogood[dsort := (EQ, snd (nogood ! dsort))])
             else if fst (nogood ! unat (var lit - instancesMarker_offset st)) = STAR
               then nogood[unat (var lit - instancesMarker_offset st) :=
                             (GEQ, snd (nogood ! unat (var lit - instancesMarker_offset st)))]
             else nogood"
  have len: "length (?step lit acc) = n"
    using Cons.prems(2) by (simp add: Let_def)
  have ent: "\<forall>s<n. ?step lit acc ! s = (specTag st (S \<union> {var lit}) s, distinctSortSizes st ! s)"
  proof (intro allI impI)
    fix s assume s: "s < n"
    from s0(2) show "?step lit acc ! s = (specTag st (S \<union> {var lit}) s, distinctSortSizes st ! s)"
    proof
      assume v: "var lit = T + of_nat s0"
      have lt: "var lit < instancesMarker_offset st"
        using T_lt [OF s0(1)] by (simp add: v I_def)
      have d: "unat (var lit - totalityMarker_offset st) = s0"
        using nat_k [OF s0(1)] by (simp add: v T_def)
      show ?thesis
      proof (cases "s = s0")
        case True
        then show ?thesis
          using lt d s Cons.prems(2,3) v
          by (auto simp: Let_def specTag_def T_def)
      next
        case False
        then have "T + of_nat s \<noteq> T + of_nat s0" using T_inj s s0(1) by blast
        moreover have "I + of_nat s \<noteq> T + of_nat s0" using TI [OF s0(1) s] by simp
        ultimately have "specTag st (S \<union> {var lit}) s = specTag st S s"
          by (simp add: specTag_def v T_def I_def)
        with False lt d s Cons.prems(2,3) show ?thesis
          by (auto simp: Let_def)
      qed
    next
      assume v: "var lit = I + of_nat s0"
      have ge: "\<not> var lit < instancesMarker_offset st"
        using I_ge [OF s0(1)] by (simp add: v I_def)
      have d: "unat (var lit - instancesMarker_offset st) = s0"
        using nat_k [OF s0(1)] by (simp add: v I_def)
      have notT: "T + of_nat s \<noteq> I + of_nat s0" using TI [OF s s0(1)] .
      show ?thesis
      proof (cases "s = s0")
        case True
        have a0: "acc ! s0 = (specTag st S s0, distinctSortSizes st ! s0)"
          using Cons.prems(3) s0(1) by simp
        show ?thesis
        proof (cases "fst (acc ! s0) = STAR")
          case star: True
          with a0 have "T + of_nat s0 \<notin> S"
            by (auto simp: specTag_def T_def split: if_splits)
          with star True ge d s Cons.prems(2) a0 notT v show ?thesis
            by (auto simp: specTag_def T_def I_def)
        next
          case nostar: False
          with a0 have "T + of_nat s0 \<in> S \<or> I + of_nat s0 \<in> S"
            by (auto simp: specTag_def T_def I_def split: if_splits)
          then have "specTag st (S \<union> {var lit}) s0 = specTag st S s0"
            using notT True by (auto simp: specTag_def v T_def I_def)
          with nostar True ge d a0 show ?thesis by simp
        qed
      next
        case False
        then have "I + of_nat s \<noteq> I + of_nat s0" using I_inj s s0(1) by blast
        with notT have "specTag st (S \<union> {var lit}) s = specTag st S s"
          by (simp add: specTag_def v T_def I_def)
        with False ge d s Cons.prems(2,3) show ?thesis
          by (auto simp: Let_def)
      qed
    qed
  qed
  have fl': "\<forall>lit \<in> set failed. \<exists>s<n. var lit = T + of_nat s \<or> var lit = I + of_nat s"
    using Cons.prems(1) by simp
  from Cons.IH [OF fl' len ent]
  show ?case by (simp add: Un_assoc [symmetric] insert_is_Un [symmetric] Un_commute)
qed

lemma testCandidate_retained:
  "testCandidate st sortMaxes i cand e = (ok, e') \<Longrightarrow>
   set (retained e) \<subseteq> set (retained e') \<and> keepOldGenerators e' = keepOldGenerators e"
  by (auto simp: testCandidate_def retained_def insertChild_def heapInsert_def Let_def
      split: if_splits option.splits)

lemma tryIncrements_retained:
  "tryIncrements st sortMaxes idx sizes e = (ok, v, e') \<Longrightarrow>
   set (retained e) \<subseteq> set (retained e') \<and> keepOldGenerators e' = keepOldGenerators e"
proof (induction idx arbitrary: sizes e)
  case Nil
  then show ?case by simp
next
  case (Cons i rest)
  let ?cand = "sizes[i := sizes ! i + 1]"
  obtain ok1 e1 where t: "testCandidate st sortMaxes i ?cand e = (ok1, e1)"
    by (cases "testCandidate st sortMaxes i ?cand e") auto
  note r = testCandidate_retained [OF t]
  show ?case
  proof (cases ok1)
    case True
    with Cons.prems t have "e' = e1" by (simp add: Let_def)
    with r show ?thesis by simp
  next
    case False
    with Cons.prems t have "tryIncrements st sortMaxes rest (?cand[i := ?cand ! i - 1]) e1 = (ok, v, e')"
      by (simp add: Let_def)
    from Cons.IH [OF this] r show ?thesis by auto
  qed
qed

lemma popGenerator_retained:
  "keepOldGenerators e \<Longrightarrow>
   set (retained e) \<subseteq> set (retained (popGenerator e)) \<and> keepOldGenerators (popGenerator e)"
proof -
  assume k: "keepOldGenerators e"
  have "set h \<subseteq> insert x (set (remove1 x h))" for x :: Constraint_Generator and h
    by (induction h) auto
  then have "set (constraints_generators e)
      \<subseteq> insert (heapTop (constraints_generators e)) (set (heapPop (constraints_generators e)))"
    unfolding heapPop_def .
  with k show ?thesis by (auto simp: retained_def popGenerator_def)
qed

lemma increaseModelSizes_retained:
  "keepOldGenerators e \<Longrightarrow> increaseModelSizes fuel st sizes sortMaxes e = Some (b, v, e') \<Longrightarrow>
   set (retained e) \<subseteq> set (retained e') \<and> keepOldGenerators e'"
proof (induction fuel arbitrary: sizes e)
  case 0
  then show ?case by simp
next
  case (Suc fuel)
  show ?case
  proof (cases "constraints_generators e = []")
    case True
    with Suc.prems show ?thesis by simp
  next
    case False
    let ?base = "map (\<lambda>i. snd (vals (heapTop (constraints_generators e)) ! i)) [0..<length sizes]"
    obtain ok1 v1 e1 where t: "tryIncrements st sortMaxes [0..<length sizes] ?base e = (ok1, v1, e1)"
      by (metis prod_cases3)
    from tryIncrements_retained [OF t] Suc.prems(1)
    have r: "set (retained e) \<subseteq> set (retained e1)" and k: "keepOldGenerators e1" by simp_all
    show ?thesis
    proof (cases ok1)
      case True
      with Suc.prems(2) False t have "e' = e1" by (simp add: Let_def)
      with r k show ?thesis by simp
    next
      case f: False
      with Suc.prems(2) False t
      have "increaseModelSizes fuel st v1 sortMaxes (popGenerator e1) = Some (b, v, e')"
        by (simp add: Let_def)
      from Suc.IH [OF conjunct2 [OF popGenerator_retained [OF k]] this]
        popGenerator_retained [OF k] r
      show ?thesis by blast
    qed
  qed
qed

lemma learnNogood_keeps:
  "set (retained e) \<subseteq> set (retained (learnNogood nogood w e))
   \<and> keepOldGenerators (learnNogood nogood w e) = keepOldGenerators e"
  by (auto simp: learnNogood_def retained_def heapInsert_def Let_def)

text \<open>
  C4 (as the code has it). In Mode B, with the marker blocks laid out without wrap-around
  and the failed assumptions among the assumptions of the round: the no-good built after
  an UNSAT answer has one entry per distinct sort, holding the current size of the sort and
  the tag \<open>EQ\<close> (\<open>LEQ\<close> for a monotonic sort) if the totality marker of the sort failed, else
  \<open>GEQ\<close> if its instances marker failed, else \<open>STAR\<close>; \<^verbatim>\<open>learnNogood\<close> puts it into the heap.
  A size vector that \<^verbatim>\<open>increaseModelSizes\<close> accepts matches no no-good the enumerator holds
  at that moment: the generators of the heap and, when \<^verbatim>\<open>_keepOldGenerators\<close> is set, the
  old generators. When \<^verbatim>\<open>_keepOldGenerators\<close> is set, \<^verbatim>\<open>increaseModelSizes\<close> drops nothing, so
  the accepted vector matches neither the no-good just learnt nor any no-good held before.
  \<^verbatim>\<open>checkConstriant\<close> is exactly the matching of the specification.
\<close>

theorem nogood_construction_and_rejection:
  assumes "\<not> xmass st" and "markerLayout st" and "set failed \<subseteq> set (assumptions st)"
  shows "length (nogoodOfFailed st failed) = length (distinctSortSizes st)
   \<and> (\<forall>s \<in> {..<length (distinctSortSizes st)}.
         nogoodOfFailed st failed ! s = (specTag st (var ` set failed) s, distinctSortSizes st ! s))
   \<and> \<lparr>vals = nogoodOfFailed st failed, weight = w\<rparr>
        \<in> set (retained (learnNogood (nogoodOfFailed st failed) w e))
   \<and> (\<forall>fuel sizes sortMaxes e0 v e'.
         increaseModelSizes fuel st sizes sortMaxes e0 = Some (True, v, e')
         \<longrightarrow> (\<forall>G \<in> set (retained e'). \<not> matchesNogood (vals G) v))
   \<and> (\<forall>fuel sizes sortMaxes e0 b v e'.
         keepOldGenerators e0 \<and> increaseModelSizes fuel st sizes sortMaxes e0 = Some (b, v, e')
         \<longrightarrow> keepOldGenerators e' \<and> set (retained e0) \<subseteq> set (retained e'))
   \<and> (\<forall>fuel sizes sortMaxes v e'.
         keepOldGenerators e
         \<and> increaseModelSizes fuel st sizes sortMaxes (learnNogood (nogoodOfFailed st failed) w e)
             = Some (True, v, e')
         \<longrightarrow> \<not> matchesNogood (nogoodOfFailed st failed) v
             \<and> (\<forall>G \<in> set (retained e). \<not> matchesNogood (vals G) v))
   \<and> (\<forall>G v. checkConstriant v G = matchesNogood G v)"
proof -
  let ?n = "length (distinctSortSizes st)"
  let ?ng = "nogoodOfFailed st failed"
  have fl: "\<forall>lit \<in> set failed. \<exists>s<?n. var lit = totalityMarker_offset st + of_nat s
              \<or> var lit = instancesMarker_offset st + of_nat s"
  proof
    fix lit assume "lit \<in> set failed"
    with assms(3) have "lit \<in> set (assumptions st)" by blast
    with assms(1) show "\<exists>s<?n. var lit = totalityMarker_offset st + of_nat s
              \<or> var lit = instancesMarker_offset st + of_nat s"
      by (auto simp: assumptions_def)
  qed
  have init: "length (map (\<lambda>s. (STAR, s)) (distinctSortSizes st)) = ?n"
    "\<forall>s<?n. map (\<lambda>s. (STAR, s)) (distinctSortSizes st) ! s = (specTag st {} s, distinctSortSizes st ! s)"
    by (simp_all add: specTag_def)
  from nogood_step_invariant [OF assms(2) fl init]
  have a: "length ?ng = ?n"
    and b: "\<forall>s \<in> {..<?n}. ?ng ! s = (specTag st (var ` set failed) s, distinctSortSizes st ! s)"
    unfolding nogoodOfFailed_def by simp_all
  have c: "\<lparr>vals = ?ng, weight = w\<rparr> \<in> set (retained (learnNogood ?ng w e))"
    by (rule learnNogood_retained)
  have d: "\<forall>fuel sizes sortMaxes e0 v e'.
         increaseModelSizes fuel st sizes sortMaxes e0 = Some (True, v, e')
         \<longrightarrow> (\<forall>G \<in> set (retained e'). \<not> matchesNogood (vals G) v)"
    using increaseModelSizes_accept by (simp add: checkConstriant_matches)
  have k: "\<forall>fuel sizes sortMaxes e0 b v e'.
         keepOldGenerators e0 \<and> increaseModelSizes fuel st sizes sortMaxes e0 = Some (b, v, e')
         \<longrightarrow> keepOldGenerators e' \<and> set (retained e0) \<subseteq> set (retained e')"
    using increaseModelSizes_retained by blast
  have l: "\<forall>fuel sizes sortMaxes v e'.
         keepOldGenerators e
         \<and> increaseModelSizes fuel st sizes sortMaxes (learnNogood ?ng w e) = Some (True, v, e')
         \<longrightarrow> \<not> matchesNogood ?ng v \<and> (\<forall>G \<in> set (retained e). \<not> matchesNogood (vals G) v)"
  proof (intro allI impI)
    fix fuel sizes sortMaxes v e'
    assume h: "keepOldGenerators e
         \<and> increaseModelSizes fuel st sizes sortMaxes (learnNogood ?ng w e) = Some (True, v, e')"
    then have i: "increaseModelSizes fuel st sizes sortMaxes (learnNogood ?ng w e) = Some (True, v, e')"
      and ko: "keepOldGenerators (learnNogood ?ng w e)"
      by (simp_all add: learnNogood_keeps)
    from increaseModelSizes_retained [OF ko i]
    have sub: "set (retained (learnNogood ?ng w e)) \<subseteq> set (retained e')" by simp
    from d i have no: "\<forall>G \<in> set (retained e'). \<not> matchesNogood (vals G) v" by blast
    from c sub no have "\<not> matchesNogood (vals \<lparr>vals = ?ng, weight = w\<rparr>) v" by blast
    moreover from learnNogood_keeps [of e ?ng w] sub no
    have "\<forall>G \<in> set (retained e). \<not> matchesNogood (vals G) v" by blast
    ultimately show "\<not> matchesNogood ?ng v \<and> (\<forall>G \<in> set (retained e). \<not> matchesNogood (vals G) v)"
      by simp
  qed
  have m: "\<forall>G v. checkConstriant v G = matchesNogood G v" by (simp add: checkConstriant_matches)
  from a b c d k l m show ?thesis by blast
qed

theorem nogood_construction_and_rejection_witness:
  "\<not> xmass (exampleFMB False) \<and> markerLayout (exampleFMB False)
   \<and> set [SATLiteral 7 True] \<subseteq> set (assumptions (exampleFMB False))
   \<and> keepOldGenerators (emptyEnumerator\<lparr>keepOldGenerators := True\<rparr>)
   \<and> nogoodOfFailed (exampleFMB False) [SATLiteral 7 True] ! 0 = (EQ, 2)
   \<and> map_option (\<lambda>(ok, v, e'). (ok, v))
        (increaseModelSizes 1 (exampleFMB False) [2] [- 1]
           (learnNogood (nogoodOfFailed (exampleFMB False) [SATLiteral 7 True]) 6
              (emptyEnumerator\<lparr>keepOldGenerators := True\<rparr>)))
       = Some (True, [3])
   \<and> \<not> matchesNogood (nogoodOfFailed (exampleFMB False) [SATLiteral 7 True]) [3]
   \<and> matchesNogood (nogoodOfFailed (exampleFMB False) [SATLiteral 7 True]) [2]"
proof -
  let ?st = "exampleFMB False" and ?failed = "[SATLiteral 7 True]"
  let ?keeping = "emptyEnumerator\<lparr>keepOldGenerators := True\<rparr>"
  let ?e = "learnNogood (nogoodOfFailed ?st ?failed) 6 ?keeping"
  have 1: "\<not> xmass ?st" by (simp add: exampleFMB_def)
  have 2: "markerLayout ?st" by (simp add: exampleFMB_def markerLayout_def)
  have 3: "set ?failed \<subseteq> set (assumptions ?st)" by (simp add: exampleFMB_def assumptions_def)
  have 4: "keepOldGenerators ?keeping" by simp
  note t = nogood_construction_and_rejection [OF 1 2 3, of 6 ?keeping]
  have tag: "specTag ?st (var ` set ?failed) 0 = EQ" "distinctSortSizes ?st ! 0 = 2"
    by (simp_all add: specTag_def example_defs)
  have "(0::nat) \<in> {..<length (distinctSortSizes ?st)}" by (simp add: exampleFMB_def)
  from t [THEN conjunct2, THEN conjunct1, rule_format, OF this]
  have n0: "nogoodOfFailed ?st ?failed ! 0 = (EQ, 2)" unfolding tag .
  have v: "map_option (\<lambda>(ok, v, e'). (ok, v)) (increaseModelSizes 1 ?st [2] [- 1] ?e) = Some (True, [3])"
    by code_simp
  then obtain e' where i: "increaseModelSizes 1 ?st [2] [- 1] ?e = Some (True, [3], e')"
    by (auto simp: map_option_case split: option.splits)
  note l = t [THEN conjunct2, THEN conjunct2, THEN conjunct2, THEN conjunct2, THEN conjunct2,
      THEN conjunct1, rule_format, OF conjI, OF 4 i]
  then have m3: "\<not> matchesNogood (nogoodOfFailed ?st ?failed) [3]" by (rule conjunct1)
  have m2: "matchesNogood (nogoodOfFailed ?st ?failed) [2]"
    by (simp add: matchesNogood_def n0)
  from 1 2 3 4 n0 v m3 m2 show ?thesis by blast
qed

text \<open>
  Without \<^verbatim>\<open>_keepOldGenerators\<close> a no-good that is popped from the heap is deleted and
  rejects nothing afterwards. At the sizes \<open>[2, 1]\<close>, with both totality markers failed, the
  no-good \<open>[(EQ, 2), (EQ, 1)]\<close> is learnt with weight 0; both of its increments exceed the
  maxima, so it is popped; the next generator is the no-good of \<open>[1, 1]\<close>, whose first
  increment \<open>[2, 1]\<close> is accepted, although it matches the no-good just learnt.
\<close>

theorem nogood_dropped_counterexample:
  "\<not> xmass revisitFMB \<and> markerLayout revisitFMB
   \<and> \<not> keepOldGenerators (dsaEnumerator revisitFMB)
   \<and> distinctSortSizes revisitFMB = [2, 1]
   \<and> set [SATLiteral 4 True, SATLiteral 5 True] \<subseteq> set (assumptions revisitFMB)
   \<and> nogoodOfFailed revisitFMB [SATLiteral 4 True, SATLiteral 5 True] = [(EQ, 2), (EQ, 1)]
   \<and> matchesNogood (nogoodOfFailed revisitFMB [SATLiteral 4 True, SATLiteral 5 True]) [2, 1]
   \<and> map_option (map_sum fst distinctSortSizes)
        (onUnsat 2 (exampleExternals (SolverUNSATISFIABLE [SATLiteral 4 True, SATLiteral 5 True]) True)
           revisitFMB 0 [SATLiteral 4 True, SATLiteral 5 True])
       = Some (Inr [2, 1])"
proof -
  have 1: "\<not> xmass revisitFMB" "\<not> keepOldGenerators (dsaEnumerator revisitFMB)"
    "distinctSortSizes revisitFMB = [2, 1]" by code_simp+
  have 0: "markerLayout revisitFMB"
    by (simp add: markerLayout_def revisitFMB_def twoSortFMB_def exampleFMB_def)
  have 2: "set [SATLiteral 4 True, SATLiteral 5 True] \<subseteq> set (assumptions revisitFMB)" by code_simp
  have 3: "nogoodOfFailed revisitFMB [SATLiteral 4 True, SATLiteral 5 True] = [(EQ, 2), (EQ, 1)]"
    by code_simp
  have 4: "matchesNogood (nogoodOfFailed revisitFMB [SATLiteral 4 True, SATLiteral 5 True]) [2, 1]"
    unfolding 3 by (simp add: matchesNogood_def lessThan_Suc)
  have 5: "map_option (map_sum fst distinctSortSizes)
        (onUnsat 2 (exampleExternals (SolverUNSATISFIABLE [SATLiteral 4 True, SATLiteral 5 True]) True)
           revisitFMB 0 [SATLiteral 4 True, SATLiteral 5 True])
       = Some (Inr [2, 1])" by code_simp
  from 0 1 2 3 4 5 show ?thesis by blast
qed

section \<open>The variable layout of \<^verbatim>\<open>reset\<close> and \<^verbatim>\<open>getSATLiteral\<close>\<close>

lemma horner_mixedRadix:
  "length xs = length ss \<Longrightarrow> horner xs ss = mixedRadix xs ss"
proof (induction xs ss rule: list_induct2)
  case Nil
  then show ?case by (simp add: mixedRadix_def)
next
  case (Cons x xs s ss)
  have "mixedRadix (x # xs) (s # ss)
      = (x - 1) + (\<Sum>i<length xs. (xs ! i - 1) * (\<Prod>j<Suc i. (s # ss) ! j))"
    by (simp add: mixedRadix_def sum.lessThan_Suc_shift del: sum.lessThan_Suc prod.lessThan_Suc)
  also have "\<dots> = (x - 1) + (\<Sum>i<length xs. (xs ! i - 1) * (s * (\<Prod>j<i. ss ! j)))"
    by (simp add: prod.lessThan_Suc_shift del: sum.lessThan_Suc prod.lessThan_Suc)
  also have "\<dots> = (x - 1) + s * mixedRadix xs ss"
    by (simp add: mixedRadix_def sum_distrib_left mult.left_commute)
  finally show ?case using Cons by simp
qed

lemma horner_bound:
  "inRangeNat ss xs \<Longrightarrow> horner xs ss < prod_list ss"
  unfolding inRangeNat_def
proof (induction xs ss rule: list_all2_induct)
  case Nil
  then show ?case by simp
next
  case (Cons x xs s ss)
  then have "x - 1 < s" and h: "horner xs ss < prod_list ss" by auto
  from h have "Suc (horner xs ss) \<le> prod_list ss" by simp
  then have "s * Suc (horner xs ss) \<le> s * prod_list ss" by (rule mult_le_mono2)
  with \<open>x - 1 < s\<close> show ?case by simp
qed

lemma horner_inj:
  "inRangeNat ss xs \<Longrightarrow> inRangeNat ss ys \<Longrightarrow> horner xs ss = horner ys ss \<Longrightarrow> xs = ys"
  unfolding inRangeNat_def
proof (induction xs ss arbitrary: ys rule: list_all2_induct)
  case Nil
  then show ?case by simp
next
  case (Cons x xs s ss)
  from Cons.prems(1) obtain y ys' where ys: "ys = y # ys'" "1 \<le> y" "y \<le> s"
    "list_all2 (\<lambda>x s. 1 \<le> x \<and> x \<le> s) ys' ss"
    by (cases ys) auto
  from Cons.prems(2) have e: "(x - 1) + s * horner xs ss = (y - 1) + s * horner ys' ss"
    by (simp add: ys)
  have xs: "x - 1 < s" "y - 1 < s" using Cons.hyps(1) ys by auto
  from e have "((x - 1) + s * horner xs ss) mod s = ((y - 1) + s * horner ys' ss) mod s" by simp
  with xs have "x - 1 = y - 1" by simp
  with Cons.hyps(1) ys have xy: "x = y" by auto
  from e xy have "s * horner xs ss = s * horner ys' ss" by simp
  moreover have "0 < s" using xs by auto
  ultimately have "horner xs ss = horner ys' ss" by simp
  from Cons.IH [OF ys(4) this] xy show ?case by (simp add: ys)
qed

lemma horner_surj:
  "k < prod_list ss \<Longrightarrow> \<exists>xs. inRangeNat ss xs \<and> horner xs ss = k"
proof (induction ss arbitrary: k)
  case Nil
  then show ?case by (auto simp: inRangeNat_def)
next
  case (Cons s ss)
  from Cons.prems have s: "0 < s" by (cases s) auto
  from Cons.prems have "k div s < prod_list ss"
    by (simp add: less_mult_imp_div_less mult.commute)
  from Cons.IH [OF this] obtain xs where xs: "inRangeNat ss xs" "horner xs ss = k div s" by blast
  have "inRangeNat (s # ss) (Suc (k mod s) # xs)"
    using xs(1) s by (simp add: inRangeNat_def Suc_le_eq)
  moreover have "horner (Suc (k mod s) # xs) (s # ss) = k"
    by (simp add: xs(2))
  ultimately show ?case by blast
qed

lemma of_nat_unat_pred:
  fixes g :: u32
  assumes "1 \<le> g"
  shows "of_nat (unat g - 1) = g - 1"
proof -
  from assms have "g \<noteq> 0" by auto
  then have "unat (g - 1) = unat g - 1" by (rule unat_minus_one)
  then have "of_nat (unat g - 1) = (of_nat (unat (g - 1)) :: u32)" by simp
  then show ?thesis by simp
qed

lemma varLoop_horner:
  "inRange sizes t \<Longrightarrow>
   varLoop v m t sizes = v + m * of_nat (horner (map unat t) (map unat sizes))"
  unfolding inRange_def
proof (induction t sizes arbitrary: v m rule: list_all2_induct)
  case Nil
  then show ?case by simp
next
  case (Cons g gs s ss)
  from Cons.hyps(1) have g: "of_nat (unat g - 1) = g - 1" by (intro of_nat_unat_pred) simp
  have "varLoop v m (g # gs) (s # ss)
      = v + m * (g - 1) + m * s * of_nat (horner (map unat gs) (map unat ss))"
    by (simp add: Cons.IH)
  also have "\<dots> = v + m * (of_nat (unat g - 1)
                 + of_nat (unat s) * of_nat (horner (map unat gs) (map unat ss)))"
    unfolding g by (simp add: algebra_simps)
  finally show ?case by simp
qed

lemma inRange_nat: "inRange sizes t \<Longrightarrow> inRangeNat (map unat sizes) (map unat t)"
  by (auto simp: inRange_def inRangeNat_def list_all2_map1 list_all2_map2 word_le_nat_alt
      elim: list_all2_mono)

lemma inRange_map_unat_inj:
  "map unat t = map unat t' \<Longrightarrow> t = (t' :: u32 list)"
  by (induction t arbitrary: t') (auto intro: unsigned_word_eqI)

lemma inRangeNat_word:
  "inRangeNat (map unat sizes) xs \<Longrightarrow>
   \<exists>t :: u32 list. inRange sizes t \<and> map unat t = xs"
  unfolding inRangeNat_def
proof (induction xs arbitrary: sizes)
  case Nil
  then show ?case by (auto simp: inRange_def)
next
  case (Cons x xs)
  from Cons.prems obtain s ss where sz: "sizes = s # ss" "1 \<le> x" "x \<le> unat s"
    "list_all2 (\<lambda>x s. 1 \<le> x \<and> x \<le> s) xs (map unat ss)"
    by (cases sizes) auto
  from Cons.IH [OF sz(4)] obtain t where t: "inRange ss t" "map unat t = xs" by blast
  have "x < 2 ^ 32" using sz(3) unsigned_less [of s, where 'a = nat] by simp
  then have ux: "unat (of_nat x :: u32) = x" by (simp add: unat_of_nat)
  with sz(2,3) have "1 \<le> (of_nat x :: u32) \<and> (of_nat x :: u32) \<le> s"
    by (simp add: word_le_nat_alt)
  with t ux have "inRange sizes (of_nat x # t) \<and> map unat (of_nat x # t) = x # xs"
    by (simp add: inRange_def sz(1))
  then show ?case by (rule exI)
qed

lemma blockSize_nat:
  "\<forall>s \<in> set ss. 1 \<le> s \<Longrightarrow> unat add * prod_list (map unat ss) < 2 ^ 32 \<Longrightarrow>
   blockSize add ss = Some b \<Longrightarrow> unat b = unat add * prod_list (map unat ss)"
proof (induction ss arbitrary: add)
  case Nil
  then show ?case by simp
next
  case (Cons s ss)
  have p: "1 \<le> prod_list (map unat ss)"
  proof -
    have "\<forall>x \<in> set (map unat ss). 1 \<le> x"
      using Cons.prems(1) by (auto simp: word_le_nat_alt)
    then show ?thesis by (induction ss) (auto simp: Suc_le_eq)
  qed
  from p obtain q where q: "prod_list (map unat ss) = Suc q"
    by (cases "prod_list (map unat ss)") auto
  have le: "unat add * unat s \<le> unat add * unat s * prod_list (map unat ss)"
    unfolding q by simp
  have lt: "unat add * unat s * prod_list (map unat ss) < 2 ^ 32"
    using Cons.prems(2) by (simp only: list.map prod_list.Cons mult.assoc)
  from le lt have small: "unat add * unat s < 2 ^ 32" by (rule le_less_trans)
  then have u: "unat (add * s) = unat add * unat s"
    by (simp add: unat_mult_lem [THEN iffD1])
  from Cons.prems(3) have r: "blockSize (add * s) ss = Some b"
    by (auto simp: Let_def split: if_splits)
  have "unat (add * s) * prod_list (map unat ss) < 2 ^ 32"
    using Cons.prems(2) by (simp add: u mult.assoc)
  from Cons.IH [OF _ this r] Cons.prems(1) show ?case by (simp add: u mult.assoc)
qed

lemma chain_total: "chain a xs b \<Longrightarrow> b = a + sum_list (map snd xs)"
  by (induction a xs b rule: chain.induct) auto

lemma chain_bounds: "chain a xs b \<Longrightarrow> (off, sz) \<in> set xs \<Longrightarrow> a \<le> off \<and> off + sz \<le> b"
proof (induction a xs b rule: chain.induct)
  case (1 a b)
  then show ?case by simp
next
  case (2 a off' sz' rest b)
  from 2(2) have c: "chain (a + sz') rest b" and o: "off' = a" by simp_all
  from chain_total [OF c] have "a + sz' \<le> b" by simp
  with 2 c o show ?case by auto
qed

lemma chain_append: "chain a xs b \<Longrightarrow> chain b ys c \<Longrightarrow> chain a (xs @ ys) c"
  by (induction a xs b rule: chain.induct) auto

lemma chain_cover:
  "chain a xs b \<Longrightarrow> a \<le> k \<Longrightarrow> k < b \<Longrightarrow> \<exists>(off, sz) \<in> set xs. off \<le> k \<and> k < off + sz"
proof (induction a xs b rule: chain.induct)
  case (1 a b)
  then show ?case by simp
next
  case (2 a off sz rest b)
  show ?case
  proof (cases "k < a + sz")
    case True
    with 2 show ?thesis by auto
  next
    case False
    with 2 have "\<exists>(off, sz) \<in> set rest. off \<le> k \<and> k < off + sz" by auto
    then show ?thesis by auto
  qed
qed

lemma chain_disjoint_map:
  "chain a (map F xs) b \<Longrightarrow> distinct xs \<Longrightarrow> x \<in> set xs \<Longrightarrow> y \<in> set xs \<Longrightarrow> x \<noteq> y \<Longrightarrow>
   fst (F x) + snd (F x) \<le> fst (F y) \<or> fst (F y) + snd (F y) \<le> fst (F x)"
proof (induction xs arbitrary: a)
  case Nil
  then show ?case by simp
next
  case (Cons z zs)
  obtain oz sz where Fz: "F z = (oz, sz)" by (cases "F z")
  from Cons.prems(1) have oz: "oz = a" and c: "chain (a + sz) (map F zs) b"
    by (simp_all add: Fz)
  have tail: "a + sz \<le> fst (F w)" if "w \<in> set zs" for w
  proof -
    from that have "(fst (F w), snd (F w)) \<in> set (map F zs)" by force
    from chain_bounds [OF c this] show ?thesis by simp
  qed
  consider "x = z" "y \<in> set zs" | "y = z" "x \<in> set zs" | "x \<in> set zs" "y \<in> set zs"
    using Cons.prems by auto
  then show ?case
  proof cases
    case 1
    with tail [of y] show ?thesis by (simp add: Fz oz)
  next
    case 2
    with tail [of x] show ?thesis by (simp add: Fz oz)
  next
    case 3
    with Cons.IH [OF c] Cons.prems show ?thesis by simp
  qed
qed

lemma offsetsLoop_chain:
  assumes "offsetsLoop del block vmax fs off offs = (True, off', offs')"
    and "distinct fs" and "\<forall>f \<in> set fs. f < length offs"
    and "\<forall>f \<in> set fs. \<not> del f \<longrightarrow> (\<forall>b. block f = Some b \<longrightarrow> unat b = B f)"
    and "unat off + sum_list (map B (filter (\<lambda>f. \<not> del f) fs)) < 2 ^ 32"
  shows "chain (unat off) (map (\<lambda>f. (unat (offs' ! f), B f)) (filter (\<lambda>f. \<not> del f) fs)) (unat off')
         \<and> length offs' = length offs
         \<and> (\<forall>g. g \<notin> set (filter (\<lambda>f. \<not> del f) fs) \<longrightarrow> offs' ! g = offs ! g)"
  using assms
proof (induction fs arbitrary: off offs)
  case Nil
  then show ?case by simp
next
  case (Cons f fs)
  show ?case
  proof (cases "del f")
    case True
    with Cons.prems have "offsetsLoop del block vmax fs off offs = (True, off', offs')"
      "distinct fs" "\<forall>f \<in> set fs. f < length offs"
      "\<forall>f \<in> set fs. \<not> del f \<longrightarrow> (\<forall>b. block f = Some b \<longrightarrow> unat b = B f)"
      "unat off + sum_list (map B (filter (\<lambda>f. \<not> del f) fs)) < 2 ^ 32"
      by simp_all
    from Cons.IH [OF this] True show ?thesis by simp
  next
    case False
    with Cons.prems(1) obtain add where add: "block f = Some add"
      and run: "offsetsLoop del block vmax fs (off + add) (offs[f := off]) = (True, off', offs')"
      by (auto simp: Let_def split: option.splits if_splits)
    from Cons.prems(4) False add have uadd: "unat add = B f" by simp
    from Cons.prems(5) False have fit: "unat off + (B f + sum_list (map B (filter (\<lambda>f. \<not> del f) fs))) < 2 ^ 32"
      by simp
    then have "unat off + unat add < 2 ^ LENGTH(32)" by (simp add: uadd)
    then have uoff: "unat (off + add) = unat off + B f"
      by (simp add: unat_add_lem [THEN iffD1] uadd)
    have p: "distinct fs" "\<forall>g \<in> set fs. g < length (offs[f := off])"
      "\<forall>g \<in> set fs. \<not> del g \<longrightarrow> (\<forall>b. block g = Some b \<longrightarrow> unat b = B g)"
      "unat (off + add) + sum_list (map B (filter (\<lambda>f. \<not> del f) fs)) < 2 ^ 32"
      using Cons.prems(2,3,4) fit by (simp_all add: uoff)
    from Cons.IH [OF run p]
    have c: "chain (unat off + B f) (map (\<lambda>f. (unat (offs' ! f), B f)) (filter (\<lambda>f. \<not> del f) fs)) (unat off')"
      and l: "length offs' = length offs"
      and k: "\<forall>g. g \<notin> set (filter (\<lambda>f. \<not> del f) fs) \<longrightarrow> offs' ! g = offs[f := off] ! g"
      by (simp_all add: uoff)
    have "f \<notin> set fs" using Cons.prems(2) by simp
    with k Cons.prems(3) have "offs' ! f = off" by simp
    with c l k False show ?thesis by auto
  qed
qed

lemma set_symbolList: "set (symbolList st) = {symb. validSymbol st symb}"
  by (auto simp: symbolList_def validSymbol_def)

lemma distinct_symbolList: "distinct (symbolList st)"
  by (auto simp: symbolList_def distinct_map inj_on_def)

lemma trueBlock_small:
  assumes "layoutFits st" and "symb \<in> set (symbolList st)"
  shows "trueBlock st symb < 2 ^ 32"
proof -
  from assms(2) have "trueBlock st symb \<in> set (map (trueBlock st) (symbolList st))" by simp
  then have "trueBlock st symb \<le> sum_list (map (trueBlock st) (symbolList st))"
    by (intro member_le_sum_list) simp_all
  with assms(1) show ?thesis by (simp add: layoutFits_def)
qed

lemma block_function:
  assumes "layoutFits st" and "f < functionCount st" and "\<not> del_f st ! f"
    and "functionBlock st f = Some b"
  shows "unat b = trueBlock st (True, f)"
proof -
  let ?sig = "functionSignatures (sortedSignature st) ! f"
  have mem: "(True, f) \<in> set (symbolList st)"
    using assms(2,3) by (simp add: set_symbolList validSymbol_def)
  from assms(1,2) have "?sig \<noteq> []" by (simp add: layoutFits_def)
  then obtain a r where sig: "?sig = a # r" by (cases ?sig) auto
  have sl: "symbolSlotSizes st (True, f) = sortModelSizes st ! a # slotSizes st r"
    by (simp add: symbolSlotSizes_def symbolSignature_def slotSizes_def sig)
  from assms(1) mem have ge: "\<forall>s \<in> set (slotSizes st r). 1 \<le> s"
    unfolding layoutFits_def sl [symmetric] by (metis list.set_intros(2) sl)
  from trueBlock_small [OF assms(1) mem]
  have small: "unat (sortModelSizes st ! a) * prod_list (map unat (slotSizes st r)) < 2 ^ 32"
    by (simp add: trueBlock_def sl)
  from assms(4) have "blockSize (sortModelSizes st ! a) (slotSizes st r) = Some b"
    by (simp add: functionBlock_def sig)
  from blockSize_nat [OF ge small this] show ?thesis by (simp add: trueBlock_def sl)
qed

lemma block_predicate:
  assumes "layoutFits st" and "0 < p" and "p < predicateCount st" and "\<not> del_p st ! p"
    and "predicateBlock st p = Some b"
  shows "unat b = trueBlock st (False, p)"
proof -
  have mem: "(False, p) \<in> set (symbolList st)"
    using assms(2,3,4) by (simp add: set_symbolList validSymbol_def)
  have sl: "symbolSlotSizes st (False, p) = slotSizes st (predicateSignatures (sortedSignature st) ! p)"
    by (simp add: symbolSlotSizes_def symbolSignature_def)
  from assms(1) mem have ge: "\<forall>s \<in> set (slotSizes st (predicateSignatures (sortedSignature st) ! p)). 1 \<le> s"
    unfolding layoutFits_def sl [symmetric] by blast
  from trueBlock_small [OF assms(1) mem]
  have small: "unat (1 :: u32) * prod_list (map unat (slotSizes st (predicateSignatures (sortedSignature st) ! p))) < 2 ^ 32"
    by (simp add: trueBlock_def sl)
  from assms(5) have "blockSize 1 (slotSizes st (predicateSignatures (sortedSignature st) ! p)) = Some b"
    by (simp add: predicateBlock_def)
  from blockSize_nat [OF ge small this] show ?thesis by (simp add: trueBlock_def sl)
qed

lemma reset_frame:
  assumes "reset st0 = (ok, st)"
  shows "sortedSignature st = sortedSignature st0 \<and> del_f st = del_f st0 \<and> del_p st = del_p st0
         \<and> sortModelSizes st = sortModelSizes st0 \<and> distinctSortSizes st = distinctSortSizes st0
         \<and> xmass st = xmass st0"
  using assms
  by (auto simp: reset_def Let_def newSolver_def split: prod.splits if_splits)

lemma ensure_length: "length (ensure n xs) = n"
  by (simp add: ensure_def)

lemma map_nth_fun: "map (\<lambda>i. f (xs ! i)) [0..<length xs] = map f xs"
  by (rule nth_equalityI) simp_all

lemma reset_chain:
  assumes r: "reset st0 = (True, st)" and fits: "layoutFits st0"
  shows "\<exists>L. chain 1 (map (\<lambda>symb. (unat (symbolOffset st (fst symb) (snd symb)), trueBlock st0 symb))
                       (symbolList st0)) L
             \<and> unat (curMaxVar st) + 1 = L + markerCount st0
             \<and> (xmass st0 \<longrightarrow>
                  chain L (map (\<lambda>i. (unat (marker_offsets st ! i), unat (distinctSortSizes st0 ! i)))
                             [0..<length (distinctSortSizes st0)]) (L + markerCount st0))
             \<and> (\<not> xmass st0 \<longrightarrow>
                  unat (totalityMarker_offset st) = L
                  \<and> unat (instancesMarker_offset st) = L + length (distinctSortSizes st0))"
proof -
  let ?funs = "filter (\<lambda>f. \<not> del_f st0 ! f) [0..<functionCount st0]"
  let ?preds = "filter (\<lambda>p. \<not> del_p st0 ! p) [1..<predicateCount st0]"
  let ?n = "length (distinctSortSizes st0)"
  have total: "1 + (sum_list (map (\<lambda>f. trueBlock st0 (True, f)) ?funs)
                 + sum_list (map (\<lambda>p. trueBlock st0 (False, p)) ?preds)) + markerCount st0 < 2 ^ 32"
    using fits by (simp add: layoutFits_def symbolList_def comp_def)
  obtain ok1 o1 fo where l1:
    "offsetsLoop (\<lambda>f. del_f st0 ! f) (functionBlock st0) (VAR_MAX st0)
       [0..<functionCount st0] 1 (f_offsets st0) = (ok1, o1, fo)"
    by (metis prod_cases3)
  obtain ok2 o2 po where l2:
    "offsetsLoop (\<lambda>p. del_p st0 ! p) (predicateBlock st0) (VAR_MAX st0)
       [1..<predicateCount st0] o1 (p_offsets st0) = (ok2, o2, po)"
    by (metis prod_cases3)
  obtain ok3 o3 mo where l3:
    "offsetsLoop (\<lambda>_. False) (\<lambda>i. Some (distinctSortSizes st0 ! i)) (VAR_MAX st0)
       [0..<?n] o2 (ensure ?n (marker_offsets st0)) = (ok3, o3, mo)"
    by (metis prod_cases3)
  from r l1 have ok1: ok1 by (auto simp: reset_def Let_def split: if_splits)
  from r l1 l2 ok1 have ok2: ok2 by (auto simp: reset_def Let_def split: if_splits)
  from r l1 l2 ok1 ok2 have fo: "f_offsets st = fo" and po: "p_offsets st = po"
    by (auto simp: reset_def Let_def newSolver_def split: if_splits prod.splits)
  have c1: "chain (unat (1 :: u32)) (map (\<lambda>f. (unat (fo ! f), trueBlock st0 (True, f))) ?funs) (unat o1)"
  proof -
    have "\<forall>f \<in> set [0..<functionCount st0]. \<not> del_f st0 ! f \<longrightarrow>
            (\<forall>b. functionBlock st0 f = Some b \<longrightarrow> unat b = trueBlock st0 (True, f))"
      using block_function [OF fits] by simp
    moreover have "\<forall>f \<in> set [0..<functionCount st0]. f < length (f_offsets st0)"
      using fits by (simp add: layoutFits_def)
    moreover have "unat (1 :: u32) + sum_list (map (\<lambda>f. trueBlock st0 (True, f)) ?funs) < 2 ^ 32"
      using total by simp
    ultimately show ?thesis
      using offsetsLoop_chain [OF l1 [unfolded eqTrueI [OF ok1]], where B = "\<lambda>f. trueBlock st0 (True, f)"]
      by simp
  qed
  from chain_total [OF c1] have u1: "unat o1 = 1 + sum_list (map (\<lambda>f. trueBlock st0 (True, f)) ?funs)"
    by (simp add: comp_def)
  have c2: "chain (unat o1) (map (\<lambda>p. (unat (po ! p), trueBlock st0 (False, p))) ?preds) (unat o2)"
  proof -
    have "\<forall>p \<in> set [1..<predicateCount st0]. \<not> del_p st0 ! p \<longrightarrow>
            (\<forall>b. predicateBlock st0 p = Some b \<longrightarrow> unat b = trueBlock st0 (False, p))"
      using block_predicate [OF fits] by simp
    moreover have "\<forall>p \<in> set [1..<predicateCount st0]. p < length (p_offsets st0)"
      using fits by (simp add: layoutFits_def)
    moreover have "unat o1 + sum_list (map (\<lambda>p. trueBlock st0 (False, p)) ?preds) < 2 ^ 32"
      using total by (simp add: u1)
    ultimately show ?thesis
      using offsetsLoop_chain [OF l2 [unfolded eqTrueI [OF ok2]], where B = "\<lambda>p. trueBlock st0 (False, p)"]
      by simp
  qed
  from chain_total [OF c2] have u2: "unat o2 = unat o1 + sum_list (map (\<lambda>p. trueBlock st0 (False, p)) ?preds)"
    by (simp add: comp_def)
  have c: "chain 1 (map (\<lambda>symb. (unat (symbolOffset st (fst symb) (snd symb)), trueBlock st0 symb))
                       (symbolList st0)) (unat o2)"
    using chain_append [OF c1 c2]
    by (simp add: symbolList_def comp_def symbolOffset_def fo po)
  have m: "unat (curMaxVar st) + 1 = unat o2 + markerCount st0
      \<and> (xmass st0 \<longrightarrow>
            chain (unat o2) (map (\<lambda>i. (unat (marker_offsets st ! i), unat (distinctSortSizes st0 ! i)))
                             [0..<?n]) (unat o2 + markerCount st0))
      \<and> (\<not> xmass st0 \<longrightarrow>
            unat (totalityMarker_offset st) = unat o2
            \<and> unat (instancesMarker_offset st) = unat o2 + ?n)"
  proof (cases "xmass st0")
    case True
    from r l1 l2 l3 ok1 ok2 True have ok3: ok3 and cm: "curMaxVar st = o3 - 1"
      and ms: "marker_offsets st = mo"
      by (auto simp: reset_def Let_def newSolver_def split: if_splits)
    have "unat o2 + sum_list (map (\<lambda>i. unat (distinctSortSizes st0 ! i)) (filter (\<lambda>i. \<not> False) [0..<?n])) < 2 ^ 32"
      using total True by (simp add: u2 u1 markerCount_def map_nth_fun)
    with offsetsLoop_chain [OF l3 [unfolded eqTrueI [OF ok3]], where B = "\<lambda>i. unat (distinctSortSizes st0 ! i)"]
    have c3: "chain (unat o2) (map (\<lambda>i. (unat (mo ! i), unat (distinctSortSizes st0 ! i)))
             (filter (\<lambda>i. \<not> False) [0..<?n])) (unat o3)"
      by (simp add: ensure_length)
    from chain_total [OF this] have u3: "unat o3 = unat o2 + markerCount st0"
      using True by (simp add: markerCount_def comp_def map_nth_fun)
    have "1 \<le> unat o2" using u2 u1 by simp
    with u3 have "o3 \<noteq> 0" by (auto simp: unat_eq_zero [symmetric] simp del: unat_eq_zero)
    then have "unat (o3 - 1) = unat o3 - 1" by (rule unat_minus_one)
    with u3 \<open>1 \<le> unat o2\<close> have "unat (curMaxVar st) + 1 = unat o2 + markerCount st0"
      by (simp add: cm)
    moreover from c3 have "chain (unat o2)
        (map (\<lambda>i. (unat (marker_offsets st ! i), unat (distinctSortSizes st0 ! i))) [0..<?n])
        (unat o2 + markerCount st0)"
      by (simp add: ms u3)
    ultimately show ?thesis using True by simp
  next
    case False
    from r l1 l2 ok1 ok2 False have cm: "curMaxVar st = o2 + of_nat ?n + of_nat ?n - 1"
      and tm: "totalityMarker_offset st = o2" and im: "instancesMarker_offset st = o2 + of_nat ?n"
      by (auto simp: reset_def Let_def newSolver_def split: if_splits)
    have ui: "unat (o2 + of_nat ?n) = unat o2 + ?n"
      using total False by (intro unat_offset_add) (simp add: u2 u1 markerCount_def)
    have e: "o2 + of_nat ?n + of_nat ?n = o2 + of_nat (2 * ?n)" by simp
    have "unat (o2 + of_nat (2 * ?n)) = unat o2 + 2 * ?n"
      using total False by (intro unat_offset_add) (simp add: u2 u1 markerCount_def)
    then have u3: "unat (o2 + of_nat ?n + of_nat ?n) = unat o2 + markerCount st0"
      unfolding e using False by (simp only: markerCount_def if_False)
    have "1 \<le> unat o2" using u2 u1 by simp
    with u3 have "o2 + of_nat ?n + of_nat ?n \<noteq> 0"
      by (auto simp: unat_eq_zero [symmetric] simp del: unat_eq_zero)
    then have "unat (o2 + of_nat ?n + of_nat ?n - 1) = unat (o2 + of_nat ?n + of_nat ?n) - 1"
      by (rule unat_minus_one)
    with u3 \<open>1 \<le> unat o2\<close> have "unat (curMaxVar st) + 1 = unat o2 + markerCount st0"
      by (simp add: cm)
    with False tm im ui show ?thesis by simp
  qed
  from c m show ?thesis by blast
qed

lemma reset_notions:
  assumes "reset st0 = (ok, st)"
  shows "symbolList st = symbolList st0" and "validSymbol st = validSymbol st0"
    and "symbolSlotSizes st = symbolSlotSizes st0" and "trueBlock st = trueBlock st0"
    and "markerCount st = markerCount st0"
  using reset_frame [OF assms]
  by (simp_all add: symbolList_def validSymbol_def symbolSlotSizes_def trueBlock_def
        markerCount_def functionCount_def predicateCount_def slotSizes_def symbolSignature_def
        fun_eq_iff)

lemma varId_unat:
  assumes r: "reset st0 = (True, st)" and fits: "layoutFits st0"
    and v: "validSymbol st symb" and t: "inRange (symbolSlotSizes st symb) t"
  shows "unat (varId st symb t)
           = unat (symbolOffset st (fst symb) (snd symb))
             + horner (map unat t) (map unat (symbolSlotSizes st symb))"
    and "horner (map unat t) (map unat (symbolSlotSizes st symb)) < trueBlock st symb"
    and "1 \<le> unat (symbolOffset st (fst symb) (snd symb))"
    and "unat (symbolOffset st (fst symb) (snd symb)) + trueBlock st symb + markerCount st
           \<le> unat (curMaxVar st) + 1"
    and "unat (curMaxVar st) + 1 < 2 ^ 32"
proof -
  note n = reset_notions [OF r]
  from reset_chain [OF r fits] obtain L where
    c: "chain 1 (map (\<lambda>symb. (unat (symbolOffset st (fst symb) (snd symb)), trueBlock st symb))
                  (symbolList st)) L"
    and m: "unat (curMaxVar st) + 1 = L + markerCount st"
    by (auto simp: n)
  from chain_total [OF c] have L: "L = 1 + sum_list (map (trueBlock st) (symbolList st))"
    by (simp add: comp_def)
  with fits m show small: "unat (curMaxVar st) + 1 < 2 ^ 32"
    by (simp add: layoutFits_def n)
  from v have "symb \<in> set (symbolList st)" by (simp add: set_symbolList)
  then have "(unat (symbolOffset st (fst symb) (snd symb)), trueBlock st symb)
      \<in> set (map (\<lambda>symb. (unat (symbolOffset st (fst symb) (snd symb)), trueBlock st symb))
                  (symbolList st))"
    unfolding set_map by (rule imageI)
  from chain_bounds [OF c this]
  have b: "1 \<le> unat (symbolOffset st (fst symb) (snd symb))"
    "unat (symbolOffset st (fst symb) (snd symb)) + trueBlock st symb \<le> L"
    by simp_all
  from b(1) show "1 \<le> unat (symbolOffset st (fst symb) (snd symb))" .
  from b(2) m show top: "unat (symbolOffset st (fst symb) (snd symb)) + trueBlock st symb + markerCount st
           \<le> unat (curMaxVar st) + 1" by simp
  from horner_bound [OF inRange_nat [OF t]]
  show h: "horner (map unat t) (map unat (symbolSlotSizes st symb)) < trueBlock st symb"
    by (simp add: trueBlock_def)
  have "varId st symb t = symbolOffset st (fst symb) (snd symb)
          + of_nat (horner (map unat t) (map unat (symbolSlotSizes st symb)))"
    using varLoop_horner [OF t, of "symbolOffset st (fst symb) (snd symb)" 1]
    by (simp add: varId_def getSATLiteral_def symbolSlotSizes_def)
  moreover have "unat (symbolOffset st (fst symb) (snd symb))
      + horner (map unat t) (map unat (symbolSlotSizes st symb)) < 2 ^ 32"
    using h top small by arith
  ultimately show "unat (varId st symb t)
           = unat (symbolOffset st (fst symb) (snd symb))
             + horner (map unat t) (map unat (symbolSlotSizes st symb))"
    by (simp only: unat_offset_add)
qed

lemma varId_inj:
  assumes r: "reset st0 = (True, st)" and fits: "layoutFits st0"
  shows "inj_on (\<lambda>(symb, t). varId st symb t) (layoutTuples st)"
proof (rule inj_onI)
  fix p q
  assume p: "p \<in> layoutTuples st" and q: "q \<in> layoutTuples st"
    and pq: "(case p of (symb, t) \<Rightarrow> varId st symb t) = (case q of (symb, t) \<Rightarrow> varId st symb t)"
  obtain a f t where p': "p = ((a, f), t)" by (cases p, cases "fst p") auto
  obtain a' f' t' where q': "q = ((a', f'), t')" by (cases q, cases "fst q") auto
  from p p' have x: "((a, f), t) \<in> layoutTuples st" by simp
  from q q' have y: "((a', f'), t') \<in> layoutTuples st" by simp
  from pq have e: "varId st (a, f) t = varId st (a', f') t'" by (simp add: p' q')
  let ?F = "\<lambda>symb. (unat (symbolOffset st (fst symb) (snd symb)), trueBlock st symb)"
  note n = reset_notions [OF r]
  from x have vx: "validSymbol st (a, f)" and tx: "inRange (symbolSlotSizes st (a, f)) t"
    by (simp_all add: layoutTuples_def)
  from y have vy: "validSymbol st (a', f')" and ty: "inRange (symbolSlotSizes st (a', f')) t'"
    by (simp_all add: layoutTuples_def)
  note X = varId_unat [OF r fits vx tx]
  note Y = varId_unat [OF r fits vy ty]
  from e X(1) Y(1) have eq: "fst (?F (a, f)) + horner (map unat t) (map unat (symbolSlotSizes st (a, f)))
      = fst (?F (a', f')) + horner (map unat t') (map unat (symbolSlotSizes st (a', f')))"
    by simp
  have same: "(a, f) = (a', f')"
  proof (rule ccontr)
    assume d: "(a, f) \<noteq> (a', f')"
    from reset_chain [OF r fits] obtain L where
      c: "chain 1 (map ?F (symbolList st)) L" by (auto simp: n)
    from vx vy have "(a, f) \<in> set (symbolList st)" "(a', f') \<in> set (symbolList st)"
      by (simp_all add: set_symbolList)
    from chain_disjoint_map [OF c distinct_symbolList this d]
    have "fst (?F (a, f)) + snd (?F (a, f)) \<le> fst (?F (a', f'))
        \<or> fst (?F (a', f')) + snd (?F (a', f')) \<le> fst (?F (a, f))" .
    with eq X(2) Y(2) show False by (simp only: fst_conv snd_conv) arith
  qed
  with eq have "horner (map unat t) (map unat (symbolSlotSizes st (a, f)))
      = horner (map unat t') (map unat (symbolSlotSizes st (a, f)))" by simp
  from horner_inj [OF inRange_nat [OF tx] inRange_nat [OF ty [folded same]] this]
  have "t = t'" by (rule inRange_map_unat_inj)
  with same show "p = q" by (simp add: p' q')
qed

lemma varId_image:
  assumes r: "reset st0 = (True, st)" and fits: "layoutFits st0"
  shows "(\<lambda>(symb, t). varId st symb t) ` layoutTuples st
           = {v. 1 \<le> unat v \<and> unat v + markerCount st \<le> unat (curMaxVar st)}"
proof (intro set_eqI iffI)
  fix v :: u32
  assume "v \<in> (\<lambda>(symb, t). varId st symb t) ` layoutTuples st"
  then obtain symb t where v: "v = varId st symb t" and vs: "validSymbol st symb"
    and t: "inRange (symbolSlotSizes st symb) t"
    by (auto simp: layoutTuples_def)
  note X = varId_unat [OF r fits vs t]
  from X(1-4) show "v \<in> {v. 1 \<le> unat v \<and> unat v + markerCount st \<le> unat (curMaxVar st)}"
    unfolding v by simp
next
  fix v :: u32
  assume "v \<in> {v. 1 \<le> unat v \<and> unat v + markerCount st \<le> unat (curMaxVar st)}"
  then have v1: "1 \<le> unat v" and v2: "unat v + markerCount st \<le> unat (curMaxVar st)" by simp_all
  let ?F = "\<lambda>symb. (unat (symbolOffset st (fst symb) (snd symb)), trueBlock st symb)"
  note n = reset_notions [OF r]
  from reset_chain [OF r fits] obtain L where
    c: "chain 1 (map ?F (symbolList st)) L" and m: "unat (curMaxVar st) + 1 = L + markerCount st"
    by (auto simp: n)
  from v2 m have "unat v < L" by simp
  from chain_cover [OF c v1 this] obtain symb where
    s: "symb \<in> set (symbolList st)" and lo: "unat (symbolOffset st (fst symb) (snd symb)) \<le> unat v"
    and hi: "unat v < unat (symbolOffset st (fst symb) (snd symb)) + trueBlock st symb"
    by auto
  from s have vs: "validSymbol st symb" by (simp add: set_symbolList)
  from lo hi have "unat v - unat (symbolOffset st (fst symb) (snd symb))
      < prod_list (map unat (symbolSlotSizes st symb))"
    by (simp add: trueBlock_def)
  from horner_surj [OF this] obtain xs where
    xs: "inRangeNat (map unat (symbolSlotSizes st symb)) xs"
    and h: "horner xs (map unat (symbolSlotSizes st symb))
              = unat v - unat (symbolOffset st (fst symb) (snd symb))"
    by blast
  from inRangeNat_word [OF xs(1)] obtain t where
    t: "inRange (symbolSlotSizes st symb) t" and tx: "map unat t = xs" by blast
  from varId_unat(1) [OF r fits vs t] h lo have "unat (varId st symb t) = unat v"
    by (simp add: tx)
  then have "varId st symb t = v" by (rule unsigned_word_eqI)
  moreover from vs t have "(symb, t) \<in> layoutTuples st" by (simp add: layoutTuples_def)
  ultimately show "v \<in> (\<lambda>(symb, t). varId st symb t) ` layoutTuples st"
    by (intro image_eqI [where x = "(symb, t)"]) simp_all
qed

lemma example_layoutFits: "layoutFits (exampleFMB True)"
proof -
  have a: "length (f_offsets (exampleFMB True)) = functionCount (exampleFMB True)"
    "length (p_offsets (exampleFMB True)) = predicateCount (exampleFMB True)" by code_simp+
  have b: "\<forall>f \<in> {..<functionCount (exampleFMB True)}.
      functionSignatures (sortedSignature (exampleFMB True)) ! f \<noteq> []" by code_simp
  have c: "\<forall>symb \<in> set (symbolList (exampleFMB True)).
      \<forall>s \<in> set (symbolSlotSizes (exampleFMB True) symb). 1 \<le> s" by code_simp
  have d: "sum_list (map (trueBlock (exampleFMB True)) (symbolList (exampleFMB True))) = 6"
    "markerCount (exampleFMB True) = 2" by code_simp+
  show ?thesis unfolding layoutFits_def d using a b c by simp
qed

lemma chain_split: "chain a (xs @ ys) c \<Longrightarrow> chain a xs (a + sum_list (map snd xs)) \<and> chain (a + sum_list (map snd xs)) ys c"
proof (induction xs arbitrary: a)
  case Nil
  then show ?case by simp
next
  case (Cons x xs)
  obtain off sz where x: "x = (off, sz)" by (cases x)
  from Cons.prems have o: "off = a" and c: "chain (a + sz) (xs @ ys) c" by (simp_all add: x)
  from Cons.IH [OF c] show ?case by (simp add: x o add.assoc)
qed

lemma chain_nth:
  assumes "chain a (map (\<lambda>i. (off i, sz i)) [0..<n]) b" and "i < n"
  shows "off i = a + sum_list (map sz [0..<i])"
proof -
  from assms(2) have "[0..<n] = [0..<i] @ i # [Suc i..<n]"
    by (metis le0 upt_conv_Cons upt_add_eq_append le_add_diff_inverse less_imp_le_nat)
  with assms(1) have "chain a (map (\<lambda>i. (off i, sz i)) [0..<i] @ (off i, sz i) # map (\<lambda>i. (off i, sz i)) [Suc i..<n]) b"
    by simp
  from chain_split [OF this] show ?thesis by (simp add: comp_def)
qed

lemma sum_list_take_nth: "i \<le> length xs \<Longrightarrow> sum_list (map (\<lambda>k. f (xs ! k)) [0..<i]) = sum_list (map f (take i xs))"
proof -
  assume "i \<le> length xs"
  then have "map (\<lambda>k. f (xs ! k)) [0..<i] = map f (take i xs)"
    by (intro nth_equalityI) simp_all
  then show ?thesis by simp
qed

lemma marker_layout:
  assumes r: "reset st0 = (True, st)" and fits: "layoutFits st0"
  shows "markerVars st = {v. unat (curMaxVar st) - markerCount st < unat v \<and> unat v \<le> unat (curMaxVar st)}"
    and "xmass st \<Longrightarrow> i < length (distinctSortSizes st) \<Longrightarrow>
         unat (marker_offsets st ! i)
           = unat (curMaxVar st) + 1 - markerCount st + sum_list (map unat (take i (distinctSortSizes st)))"
    and "\<not> xmass st \<Longrightarrow>
         unat (totalityMarker_offset st) = unat (curMaxVar st) + 1 - markerCount st
         \<and> unat (instancesMarker_offset st)
             = unat (curMaxVar st) + 1 - markerCount st + length (distinctSortSizes st)"
proof -
  note n = reset_notions [OF r]
  note fr = reset_frame [OF r]
  let ?n = "length (distinctSortSizes st)"
  let ?T = "unat (curMaxVar st) + 1"
  from reset_chain [OF r fits] obtain L where
    c: "chain 1 (map (\<lambda>symb. (unat (symbolOffset st (fst symb) (snd symb)), trueBlock st symb))
                  (symbolList st)) L"
    and m: "?T = L + markerCount st"
    and cx: "xmass st \<Longrightarrow>
               chain L (map (\<lambda>i. (unat (marker_offsets st ! i), unat (distinctSortSizes st ! i))) [0..<?n])
                 (L + markerCount st)"
    and cb: "\<not> xmass st \<Longrightarrow> unat (totalityMarker_offset st) = L
               \<and> unat (instancesMarker_offset st) = L + ?n"
    using fr by (auto simp: n)
  from chain_total [OF c] have L1: "1 \<le> L" by simp
  from m have Lm: "L = ?T - markerCount st" by simp
  have small: "?T < 2 ^ 32"
  proof -
    from chain_total [OF c] have "L = 1 + sum_list (map (trueBlock st) (symbolList st))"
      by (simp add: comp_def)
    with fits m show ?thesis by (simp add: layoutFits_def n)
  qed
  have range: "{v :: u32. unat (curMaxVar st) - markerCount st < unat v \<and> unat v \<le> unat (curMaxVar st)}
      = {v. L \<le> unat v \<and> unat v < ?T}"
    using m L1 by auto
  show "unat (marker_offsets st ! i) = ?T - markerCount st + sum_list (map unat (take i (distinctSortSizes st)))"
    if x: "xmass st" and i: "i < ?n"
    using chain_nth [OF cx [OF x] i] i
    by (simp add: Lm sum_list_take_nth [where f = unat])
  show "unat (totalityMarker_offset st) = ?T - markerCount st
         \<and> unat (instancesMarker_offset st) = ?T - markerCount st + ?n"
    if "\<not> xmass st"
    using cb [OF that] by (simp add: Lm)
  show "markerVars st = {v. unat (curMaxVar st) - markerCount st < unat v \<and> unat v \<le> unat (curMaxVar st)}"
    unfolding range
  proof (cases "xmass st")
    case True
    let ?F = "\<lambda>i. (unat (marker_offsets st ! i), unat (distinctSortSizes st ! i))"
    note ch = cx [OF True]
    have mv: "markerVars st = {marker_offsets st ! i + of_nat j | i j. i < ?n \<and> j < unat (distinctSortSizes st ! i)}"
      by (simp add: markerVars_def True)
    show "markerVars st = {v. L \<le> unat v \<and> unat v < ?T}"
    proof (intro set_eqI iffI)
      fix v :: u32
      assume "v \<in> markerVars st"
      then obtain i j where i: "i < ?n" and j: "j < unat (distinctSortSizes st ! i)"
        and v: "v = marker_offsets st ! i + of_nat j" unfolding mv by blast
      from i have "?F i \<in> set (map ?F [0..<?n])" by simp
      from chain_bounds [OF ch, of "unat (marker_offsets st ! i)" "unat (distinctSortSizes st ! i)"] this
      have b: "L \<le> unat (marker_offsets st ! i)"
        "unat (marker_offsets st ! i) + unat (distinctSortSizes st ! i) \<le> L + markerCount st"
        by simp_all
      with j m small have "unat (marker_offsets st ! i) + j < 2 ^ 32" by simp
      then have "unat v = unat (marker_offsets st ! i) + j" unfolding v by (rule unat_offset_add)
      with b j m show "v \<in> {v. L \<le> unat v \<and> unat v < ?T}" by simp
    next
      fix v :: u32
      assume "v \<in> {v. L \<le> unat v \<and> unat v < ?T}"
      then have lo: "L \<le> unat v" and hi: "unat v < L + markerCount st" using m by simp_all
      from chain_cover [OF ch lo hi] obtain i where i: "i < ?n"
        and o: "unat (marker_offsets st ! i) \<le> unat v"
        and h: "unat v < unat (marker_offsets st ! i) + unat (distinctSortSizes st ! i)"
        by auto
      let ?j = "unat v - unat (marker_offsets st ! i)"
      from o h have j: "?j < unat (distinctSortSizes st ! i)" by simp
      have "unat (marker_offsets st ! i) + ?j < 2 ^ 32" using o unsigned_less [of v, where 'a = nat] by simp
      then have "unat (marker_offsets st ! i + of_nat ?j) = unat (marker_offsets st ! i) + ?j"
        by (rule unat_offset_add)
      with o have "unat (marker_offsets st ! i + of_nat ?j) = unat v" by simp
      then have "v = marker_offsets st ! i + of_nat ?j" by (rule unsigned_word_eqI [symmetric])
      with i j have "\<exists>i' j'. v = marker_offsets st ! i' + of_nat j' \<and> i' < ?n
          \<and> j' < unat (distinctSortSizes st ! i')"
        by (intro exI [of _ i] exI [of _ ?j]) simp
      then show "v \<in> markerVars st" unfolding mv by simp
    qed
  next
    case False
    note b = cb [OF False]
    have mc: "markerCount st = 2 * ?n" by (simp add: markerCount_def False)
    have mv: "markerVars st = {totalityMarker_offset st + of_nat i | i. i < ?n}
           \<union> {instancesMarker_offset st + of_nat i | i. i < ?n}"
      by (simp add: markerVars_def False)
    have ut: "unat (totalityMarker_offset st + of_nat i) = L + i" if "i < ?n" for i
    proof -
      have "unat (totalityMarker_offset st) + i < 2 ^ 32" using b that m mc small by simp
      from unat_offset_add [OF this] b show ?thesis by simp
    qed
    have ui: "unat (instancesMarker_offset st + of_nat i) = L + ?n + i" if "i < ?n" for i
    proof -
      have "unat (instancesMarker_offset st) + i < 2 ^ 32" using b that m mc small by simp
      from unat_offset_add [OF this] b show ?thesis by simp
    qed
    show "markerVars st = {v. L \<le> unat v \<and> unat v < ?T}"
    proof (intro set_eqI iffI)
      fix v :: u32
      assume "v \<in> markerVars st"
      then consider i where "i < ?n" "v = totalityMarker_offset st + of_nat i"
        | i where "i < ?n" "v = instancesMarker_offset st + of_nat i"
        unfolding mv by blast
      then show "v \<in> {v. L \<le> unat v \<and> unat v < ?T}"
      proof cases
        case 1
        with ut [OF 1(1)] m mc show ?thesis by simp
      next
        case 2
        with ui [OF 2(1)] m mc show ?thesis by simp
      qed
    next
      fix v :: u32
      assume "v \<in> {v. L \<le> unat v \<and> unat v < ?T}"
      then have lo: "L \<le> unat v" and hi: "unat v < L + 2 * ?n" using m mc by simp_all
      show "v \<in> markerVars st"
      proof (cases "unat v < L + ?n")
        case True
        let ?i = "unat v - L"
        from True lo have i: "?i < ?n" by simp
        from ut [OF i] lo have "unat (totalityMarker_offset st + of_nat ?i) = unat v" by simp
        then have "v = totalityMarker_offset st + of_nat ?i" by (rule unsigned_word_eqI [symmetric])
        with i have "\<exists>i'. v = totalityMarker_offset st + of_nat i' \<and> i' < ?n"
          by (intro exI [of _ ?i]) simp
        then show ?thesis unfolding mv by simp
      next
        case False
        let ?i = "unat v - L - ?n"
        from False hi have i: "?i < ?n" by simp
        from ui [OF i] False have "unat (instancesMarker_offset st + of_nat ?i) = unat v" by simp
        then have "v = instancesMarker_offset st + of_nat ?i" by (rule unsigned_word_eqI [symmetric])
        with i have "\<exists>i'. v = instancesMarker_offset st + of_nat i' \<and> i' < ?n"
          by (intro exI [of _ ?i]) simp
        then show ?thesis unfolding mv by simp
      qed
    qed
  qed
qed

text \<open>
  C1 (as the code has it). After a \<^verbatim>\<open>reset\<close> that returns true on a layout that fits the
  32-bit counters, for every non-deleted symbol and every tuple within the current domain
  sizes the variable of \<^verbatim>\<open>getSATLiteral\<close> is the block offset of the symbol plus the
  mixed-radix index \<open>\<Sum>\<^sub>i (tuple[i] - 1) * \<Prod>\<^sub>j\<^sub><\<^sub>i size(sort\<^sub>j)\<close>; and the numbering is a bijection
  from these pairs of symbol and tuple onto the variables from 1 to \<^verbatim>\<open>_curMaxVar\<close> minus the
  number \<open>M\<close> of marker variables, so distinct tuples of a symbol get distinct variables and
  the blocks of distinct symbols do not overlap. The marker variables are exactly the
  variables from \<open>curMaxVar - M + 1\<close> to \<^verbatim>\<open>_curMaxVar\<close>: in CONTOUR mode the block of sort \<open>i\<close>
  starts at \<open>curMaxVar + 1 - M\<close> plus the sizes of the sorts before \<open>i\<close>, in Mode B the
  totality markers start at \<open>curMaxVar + 1 - M\<close> and the instances markers follow them.
\<close>

theorem variable_layout:
  assumes "reset st0 = (True, st)" and "layoutFits st0"
  shows "(\<forall>symb t. (symb, t) \<in> layoutTuples st \<longrightarrow>
            unat (varId st symb t)
              = unat (symbolOffset st (fst symb) (snd symb))
                + mixedRadix (map unat t) (map unat (symbolSlotSizes st symb)))
         \<and> bij_betw (\<lambda>(symb, t). varId st symb t) (layoutTuples st)
              {v. 1 \<le> unat v \<and> unat v + markerCount st \<le> unat (curMaxVar st)}
         \<and> markerVars st
              = {v. unat (curMaxVar st) - markerCount st < unat v \<and> unat v \<le> unat (curMaxVar st)}
         \<and> (xmass st \<longrightarrow>
              (\<forall>i \<in> {..<length (distinctSortSizes st)}.
                 unat (marker_offsets st ! i)
                   = unat (curMaxVar st) + 1 - markerCount st
                     + sum_list (map unat (take i (distinctSortSizes st)))))
         \<and> (\<not> xmass st \<longrightarrow>
              unat (totalityMarker_offset st) = unat (curMaxVar st) + 1 - markerCount st
              \<and> unat (instancesMarker_offset st)
                  = unat (curMaxVar st) + 1 - markerCount st + length (distinctSortSizes st))"
proof (intro conjI allI impI ballI)
  fix symb t assume "(symb, t) \<in> layoutTuples st"
  then have v: "validSymbol st symb" and t: "inRange (symbolSlotSizes st symb) t"
    by (simp_all add: layoutTuples_def)
  from t have "length (map unat t) = length (map unat (symbolSlotSizes st symb))"
    by (simp add: inRange_def list_all2_lengthD)
  from horner_mixedRadix [OF this] varId_unat(1) [OF assms v t]
  show "unat (varId st symb t)
          = unat (symbolOffset st (fst symb) (snd symb))
            + mixedRadix (map unat t) (map unat (symbolSlotSizes st symb))"
    by simp
next
  show "bij_betw (\<lambda>(symb, t). varId st symb t) (layoutTuples st)
          {v. 1 \<le> unat v \<and> unat v + markerCount st \<le> unat (curMaxVar st)}"
    unfolding bij_betw_def using varId_inj [OF assms] varId_image [OF assms] by (rule conjI)
next
  show "markerVars st
          = {v. unat (curMaxVar st) - markerCount st < unat v \<and> unat v \<le> unat (curMaxVar st)}"
    by (rule marker_layout(1) [OF assms])
next
  fix i assume "xmass st" and "i \<in> {..<length (distinctSortSizes st)}"
  then show "unat (marker_offsets st ! i)
               = unat (curMaxVar st) + 1 - markerCount st
                 + sum_list (map unat (take i (distinctSortSizes st)))"
    using marker_layout(2) [OF assms] by simp
next
  assume x: "\<not> xmass st"
  from marker_layout(3) [OF assms x]
  show "unat (totalityMarker_offset st) = unat (curMaxVar st) + 1 - markerCount st" by (rule conjunct1)
  from marker_layout(3) [OF assms x]
  show "unat (instancesMarker_offset st)
          = unat (curMaxVar st) + 1 - markerCount st + length (distinctSortSizes st)"
    by (rule conjunct2)
qed

theorem variable_layout_witness:
  "fst (reset (exampleFMB True)) \<and> layoutFits (exampleFMB True)
   \<and> ((True, 0), [2, 1]) \<in> layoutTuples (snd (reset (exampleFMB True)))
   \<and> unat (varId (snd (reset (exampleFMB True))) (True, 0) [2, 1])
       = unat (symbolOffset (snd (reset (exampleFMB True))) True 0) + mixedRadix [2, 1] [2, 2]
   \<and> varId (snd (reset (exampleFMB True))) (True, 0) [2, 1] = 2
   \<and> bij_betw (\<lambda>(symb, t). varId (snd (reset (exampleFMB True))) symb t)
        (layoutTuples (snd (reset (exampleFMB True)))) {v. 1 \<le> unat v \<and> unat v + 2 \<le> 8}
   \<and> markerVars (snd (reset (exampleFMB True))) = {v. 6 < unat v \<and> unat v \<le> 8}
   \<and> unat (marker_offsets (snd (reset (exampleFMB True))) ! 0) = 7"
proof -
  let ?S = "snd (reset (exampleFMB True))"
  have 1: "fst (reset (exampleFMB True))" by code_simp
  then have r: "reset (exampleFMB True) = (True, ?S)" by (simp add: prod_eq_iff)
  note 2 = example_layoutFits
  note t = variable_layout [OF r 2]
  have v: "validSymbol ?S (True, 0)" by code_simp
  have i: "inRange (symbolSlotSizes ?S (True, 0)) [2, 1]" by code_simp
  from v i have 3: "((True, 0), [2, 1]) \<in> layoutTuples ?S" by (simp add: layoutTuples_def)
  have m: "markerCount ?S = 2" "unat (curMaxVar ?S) = 8" by code_simp+
  have sz: "map unat (symbolSlotSizes ?S (True, 0)) = [2, 2]" by code_simp
  note t [THEN conjunct1, rule_format, OF 3]
  then have 4: "unat (varId ?S (True, 0) [2, 1])
      = unat (symbolOffset ?S True 0) + mixedRadix [2, 1] [2, 2]"
    unfolding sz by simp
  have 5: "varId ?S (True, 0) [2, 1] = 2" by code_simp
  from t have "bij_betw (\<lambda>(symb, t). varId ?S symb t) (layoutTuples ?S)
      {v. 1 \<le> unat v \<and> unat v + markerCount ?S \<le> unat (curMaxVar ?S)}" by blast
  then have 6: "bij_betw (\<lambda>(symb, t). varId ?S symb t) (layoutTuples ?S)
      {v. 1 \<le> unat v \<and> unat v + 2 \<le> 8}" unfolding m .
  from t have "markerVars ?S
      = {v. unat (curMaxVar ?S) - markerCount ?S < unat v \<and> unat v \<le> unat (curMaxVar ?S)}" by blast
  then have 7: "markerVars ?S = {v. 6 < unat v \<and> unat v \<le> 8}" unfolding m by simp
  have x: "xmass ?S" "(0 :: nat) \<in> {..<length (distinctSortSizes ?S)}" by code_simp+
  have tk: "sum_list (map unat (take 0 (distinctSortSizes ?S))) = 0" by simp
  note t [THEN conjunct2, THEN conjunct2, THEN conjunct2, THEN conjunct1, rule_format, OF x]
  then have 8: "unat (marker_offsets ?S ! 0) = 7" unfolding m tk by simp
  from 1 2 3 4 5 6 7 8 show ?thesis by blast
qed

text \<open>
  The numbering does not reach the whole of \<open>[1, curMaxVar]\<close>: in the example signature in
  CONTOUR mode, \<^verbatim>\<open>reset\<close> gives the function the variables 1 to 4, the predicate the
  variables 5 and 6 and the sort the markers 7 and 8, so \<^verbatim>\<open>_curMaxVar\<close> is 8 and variable 7
  is the variable of no symbol and tuple.
\<close>

theorem variable_layout_markers_counterexample:
  "fst (reset (exampleFMB True)) \<and> layoutFits (exampleFMB True)
   \<and> 1 \<le> (7 :: u32) \<and> 7 \<le> curMaxVar (snd (reset (exampleFMB True)))
   \<and> 7 \<notin> (\<lambda>(symb, t). varId (snd (reset (exampleFMB True))) symb t)
            ` layoutTuples (snd (reset (exampleFMB True)))
   \<and> \<not> bij_betw (\<lambda>(symb, t). varId (snd (reset (exampleFMB True))) symb t)
          (layoutTuples (snd (reset (exampleFMB True))))
          {1 .. curMaxVar (snd (reset (exampleFMB True)))}"
proof -
  let ?S = "snd (reset (exampleFMB True))"
  have 1: "fst (reset (exampleFMB True))" by code_simp
  then have r: "reset (exampleFMB True) = (True, ?S)" by (simp add: prod_eq_iff)
  note 2 = example_layoutFits
  have m: "markerCount ?S = 2" "unat (curMaxVar ?S) = 8" by code_simp+
  have 3: "7 \<le> curMaxVar ?S" by code_simp
  have 4: "7 \<notin> (\<lambda>(symb, t). varId ?S symb t) ` layoutTuples ?S"
    unfolding varId_image [OF r 2] m by simp
  have 5: "\<not> bij_betw (\<lambda>(symb, t). varId ?S symb t) (layoutTuples ?S) {1 .. curMaxVar ?S}"
  proof
    assume "bij_betw (\<lambda>(symb, t). varId ?S symb t) (layoutTuples ?S) {1 .. curMaxVar ?S}"
    then have "(\<lambda>(symb, t). varId ?S symb t) ` layoutTuples ?S = {1 .. curMaxVar ?S}"
      by (simp add: bij_betw_def)
    with 4 3 show False by simp
  qed
  have 0: "1 \<le> (7 :: u32)" by simp
  from 0 1 2 3 4 5 show ?thesis by blast
qed

section \<open>Overflow detection in \<^verbatim>\<open>reset\<close>\<close>

text \<open>
  Whenever one of the tests of \<^verbatim>\<open>reset\<close> fires, it returns \<^verbatim>\<open>false\<close> before the solver is
  allocated; a \<^verbatim>\<open>reset\<close> that returns \<^verbatim>\<open>true\<close> has allocated one.
\<close>

lemma reset_false_no_solver:
  "\<not> fst (reset st) \<Longrightarrow> solvers (snd (reset st)) = solvers st"
  by (auto simp: reset_def Let_def newSolver_def split: prod.splits if_splits)

lemma reset_true_solver:
  "fst (reset st) \<Longrightarrow> solvers (snd (reset st)) = solvers st + 1"
  by (auto simp: reset_def Let_def newSolver_def split: prod.splits if_splits)

text \<open>
  C5. The test \<^verbatim>\<open>n_add < add\<close> does not see every multiplication that overflows: with the
  sort at size 65537 the block of the unary function has \<open>65537 * 65537 > 2\<^sup>3\<^sup>2\<close> tuples, the
  product wraps to 131073, which is not below 65537, and the running offset stays far
  below \<^verbatim>\<open>VAR_MAX\<close>. So \<^verbatim>\<open>reset\<close> returns \<^verbatim>\<open>true\<close> and allocates the solver, with
  \<^verbatim>\<open>_curMaxVar = 196612\<close>, and the tuples \<open>\<langle>2, 65536\<rangle>\<close> and \<open>\<langle>1, 1\<rangle>\<close> of the function, both
  within the domain sizes, share the variable 1.
\<close>

theorem reset_overflow_undetected:
  "validSymbol overflowFMB (True, 0)
   \<and> map unat (symbolSlotSizes overflowFMB (True, 0)) = [65537, 65537]
   \<and> trueBlock overflowFMB (True, 0) = 65537 * 65537
   \<and> 2 ^ 32 < trueBlock overflowFMB (True, 0)
   \<and> functionBlock overflowFMB 0 = Some 131073
   \<and> fst (reset overflowFMB)
   \<and> solvers (snd (reset overflowFMB)) = solvers overflowFMB + 1
   \<and> curMaxVar (snd (reset overflowFMB)) = 196612
   \<and> inRange (symbolSlotSizes (snd (reset overflowFMB)) (True, 0)) [2, 65536]
   \<and> inRange (symbolSlotSizes (snd (reset overflowFMB)) (True, 0)) [1, 1]
   \<and> varId (snd (reset overflowFMB)) (True, 0) [2, 65536] = 1
   \<and> varId (snd (reset overflowFMB)) (True, 0) [1, 1] = 1"
proof -
  have 1: "validSymbol overflowFMB (True, 0)" by code_simp
  have 2: "map unat (symbolSlotSizes overflowFMB (True, 0)) = [65537, 65537]"
    by (simp add: symbolSlotSizes_def slotSizes_def symbolSignature_def
      overflowFMB_def exampleFMB_def exampleSignature_def)
  have 3: "trueBlock overflowFMB (True, 0) = 65537 * 65537" unfolding trueBlock_def 2 by simp
  have 4: "2 ^ 32 < trueBlock overflowFMB (True, 0)" unfolding 3 by simp
  have 5: "functionBlock overflowFMB 0 = Some 131073" by code_simp
  have 6: "fst (reset overflowFMB)" by code_simp
  have 7: "solvers (snd (reset overflowFMB)) = solvers overflowFMB + 1" by code_simp
  have 8: "curMaxVar (snd (reset overflowFMB)) = 196612" by code_simp
  have 9: "inRange (symbolSlotSizes (snd (reset overflowFMB)) (True, 0)) [2, 65536]" by code_simp
  have 10: "inRange (symbolSlotSizes (snd (reset overflowFMB)) (True, 0)) [1, 1]" by code_simp
  have 11: "varId (snd (reset overflowFMB)) (True, 0) [2, 65536] = 1" by code_simp
  have 12: "varId (snd (reset overflowFMB)) (True, 0) [1, 1] = 1" by code_simp
  from 1 2 3 4 5 6 7 8 9 10 11 12 show ?thesis by blast
qed

section \<open>The bounds of the sizes\<close>

lemma initialSizes_bounds:
  assumes "i < length (distinctSortMins st)"
  shows "distinctSortMins st ! i \<le> initialSizes st ! i"
    and "initialSizes st ! i \<le> M \<longleftrightarrow> startModelSize st \<le> M \<and> distinctSortMins st ! i \<le> M"
  using assms by (simp_all add: initialSizes_def)





























section \<open>Functions of a model: totality and functional definitions\<close>
















end
